theory Spec2Isabelle
  imports Main "HOL-Library.Word"
begin

unbundle bit_operations_syntax

section \<open>Data model of Main.c\<close>

text \<open>
  The allocator is modelled for an LP64 target: \<open>size_t\<close> and pointers are 64-bit
  words (arithmetic wraps), \<open>unsigned int\<close> is a 32-bit word, and
  \<open>sizeof(Block)\<close> is 32 (8 bytes of \<open>size\<close>, 4 of \<open>free\<close>, 4 of padding and
  two 8-byte links).
\<close>

type_synonym size_t = "64 word"
type_synonym addr = "64 word"

definition NULL :: addr where
  "NULL = 0"

definition ALIGNMENT :: size_t where
  "ALIGNMENT = 8"

definition ALIGN :: "size_t \<Rightarrow> size_t" where
  "ALIGN sz = (sz + (ALIGNMENT - 1)) AND NOT (ALIGNMENT - 1)"

definition sizeof_Block :: size_t where
  "sizeof_Block = 32"

text \<open>
  The process memory is kept as one component per field of \<open>struct block_type\<close>,
  indexed by the address of the header, plus the payload bytes. The components are
  apart: a store to a payload byte changes no header field. A field of a header the
  allocator has not written yet holds whatever the component has at that address.
  \<open>head\<close> and \<open>last_blk\<close> are the two globals \<open>head\<close> and \<open>last\<close>;
  \<open>brk\<close> is the program break and \<open>brk_limit\<close> the address beyond which the
  operating system refuses to move it; \<open>err\<close> collects the lines written to the
  standard error stream.
\<close>

record heap =
  b_size :: "addr \<Rightarrow> size_t"
  b_free :: "addr \<Rightarrow> 32 word"
  b_next :: "addr \<Rightarrow> addr"
  b_prev :: "addr \<Rightarrow> addr"
  bytes :: "addr \<Rightarrow> 8 word"
  head :: addr
  last_blk :: addr
  brk :: addr
  brk_limit :: addr
  err :: "string list"

text \<open>
  Modelled from the spec: \<open>sbrk\<close>, the break-pointer call of the operating system
  (the sources only call it). The increment is a number of bytes; on success the break
  moves up by it and the old break is returned, so that the arena grows contiguously;
  when the operating system refuses, the state is unchanged and the result is
  \<open>(void *)-1\<close>.
\<close>

definition sbrk :: "heap \<Rightarrow> size_t \<Rightarrow> heap \<times> addr" where
  "sbrk h incr =
     (if unat (brk h) + unat incr \<le> unat (brk_limit h)
      then (h\<lparr>brk := brk h + incr\<rparr>, brk h)
      else (h, - 1))"

section \<open>my_malloc\<close>

text \<open>
  The first-fit loop of \<open>my_malloc\<close>: it returns the first block that is free and
  large enough, or \<open>NULL\<close> when the walk reaches the end of the list. The walk does
  not end on a cyclic list; then the result is \<open>None\<close>.
\<close>

partial_function (option) malloc_search :: "heap \<Rightarrow> addr \<Rightarrow> size_t \<Rightarrow> addr option" where
  "malloc_search h current aligned_size =
     (if current \<noteq> NULL then
        (if b_free h current = 1 \<and> aligned_size \<le> b_size h current then Some current
         else malloc_search h (b_next h current) aligned_size)
      else Some NULL)"

text \<open>The body executed for the block the search found (lines 80 to 98).\<close>

definition malloc_take :: "heap \<Rightarrow> addr \<Rightarrow> size_t \<Rightarrow> heap \<times> addr" where
  "malloc_take h current aligned_size =
     (let h1 = h\<lparr>b_free := (b_free h)(current := 0)\<rparr> in
      if aligned_size + sizeof_Block + ALIGNMENT \<le> b_size h1 current then
        (let new_block = current + sizeof_Block + aligned_size;
             h2 = h1\<lparr>b_size := (b_size h1)
                     (new_block := b_size h1 current - aligned_size - sizeof_Block)\<rparr>;
             h3 = h2\<lparr>b_prev := (b_prev h2)(new_block := current)\<rparr>;
             h4 = h3\<lparr>b_next := (b_next h3)(new_block := b_next h3 current)\<rparr>;
             h5 = h4\<lparr>b_next := (b_next h4)(current := new_block)\<rparr>;
             h6 = (if b_next h5 new_block \<noteq> NULL
                   then h5\<lparr>b_prev := (b_prev h5)(b_next h5 new_block := new_block)\<rparr>
                   else h5)
         in (h6, current + sizeof_Block))
      else (h1, current + sizeof_Block))"

text \<open>The arena growth after an unsuccessful search (lines 109 to 136).\<close>

definition malloc_grow :: "heap \<Rightarrow> size_t \<Rightarrow> heap \<times> addr" where
  "malloc_grow h aligned_size =
     (case sbrk h (aligned_size + sizeof_Block) of (h1, mem_block) \<Rightarrow>
      if mem_block = - 1 then (h1\<lparr>err := err h1 @ [''sbrk error'']\<rparr>, NULL)
      else
        (let allocated_block = mem_block;
             h2 = h1\<lparr>b_free := (b_free h1)(allocated_block := 0)\<rparr>;
             h3 = h2\<lparr>b_size := (b_size h2)(allocated_block := aligned_size)\<rparr>;
             h4 = h3\<lparr>b_next := (b_next h3)(allocated_block := NULL)\<rparr>;
             h5 = h4\<lparr>b_prev := (b_prev h4)(allocated_block := NULL)\<rparr>;
             h6 = (if head h5 = NULL
                   then h5\<lparr>head := allocated_block, last_blk := allocated_block\<rparr>
                   else
                     (let h7 = h5\<lparr>b_prev := (b_prev h5)(allocated_block := last_blk h5)\<rparr>;
                          h8 = h7\<lparr>b_next := (b_next h7)(last_blk h7 := allocated_block)\<rparr>
                      in h8\<lparr>last_blk := allocated_block\<rparr>))
         in (h6, allocated_block + sizeof_Block)))"

definition my_malloc :: "heap \<Rightarrow> size_t \<Rightarrow> (heap \<times> addr) option" where
  "my_malloc h sz =
     (let aligned_size = ALIGN sz in
      case malloc_search h (head h) aligned_size of
        None \<Rightarrow> None
      | Some current \<Rightarrow>
          Some (if current \<noteq> NULL then malloc_take h current aligned_size
                else malloc_grow h aligned_size))"

section \<open>my_free\<close>

text \<open>The forward loop (lines 168 to 172); it returns the heap and \<open>current_fwd\<close>.\<close>

partial_function (option) free_fwd :: "heap \<Rightarrow> addr \<Rightarrow> addr \<Rightarrow> (heap \<times> addr) option" where
  "free_fwd h free_block current_fwd =
     (if current_fwd \<noteq> NULL \<and> b_free h current_fwd = 1 then
        free_fwd
          (h\<lparr>b_size := (b_size h)
                (free_block := b_size h free_block + (sizeof_Block + b_size h current_fwd))\<rparr>)
          free_block (b_next h current_fwd)
      else Some (h, current_fwd))"

text \<open>One pass through the body of the backward loop (lines 186 to 191).\<close>

definition free_bck_body :: "heap \<Rightarrow> addr \<Rightarrow> addr \<Rightarrow> heap" where
  "free_bck_body h free_block current_bck =
     (let h1 = h\<lparr>b_size := (b_size h)
                  (current_bck := b_size h current_bck + (sizeof_Block + b_size h free_block))\<rparr>;
          h2 = h1\<lparr>b_next := (b_next h1)(current_bck := b_next h1 free_block)\<rparr>
      in if b_next h2 free_block \<noteq> NULL
         then h2\<lparr>b_prev := (b_prev h2)(b_next h2 free_block := current_bck)\<rparr>
         else h2)"

text \<open>The backward loop (lines 183 to 196).\<close>

partial_function (option) free_bck :: "heap \<Rightarrow> addr \<Rightarrow> addr \<Rightarrow> heap option" where
  "free_bck h free_block current_bck =
     (if current_bck \<noteq> NULL \<and> b_free h current_bck = 1 then
        free_bck (free_bck_body h free_block current_bck) current_bck
          (b_prev (free_bck_body h free_block current_bck) current_bck)
      else Some h)"

definition my_free :: "heap \<Rightarrow> addr \<Rightarrow> heap option" where
  "my_free h allocated_block =
     (if allocated_block = NULL then Some (h\<lparr>err := err h @ [''invalid memory block'']\<rparr>)
      else
        (let free_block = allocated_block - sizeof_Block;
             h1 = h\<lparr>b_free := (b_free h)(free_block := 1)\<rparr>
         in case free_fwd h1 free_block (b_next h1 free_block) of
              None \<Rightarrow> None
            | Some (h2, current_fwd) \<Rightarrow>
                (let h3 = h2\<lparr>b_next := (b_next h2)(free_block := current_fwd)\<rparr>;
                     h4 = (if current_fwd \<noteq> NULL
                           then h3\<lparr>b_prev := (b_prev h3)(current_fwd := free_block)\<rparr>
                           else h3)
                 in free_bck h4 free_block (b_prev h4 free_block))))"

section \<open>my_calloc\<close>

text \<open>The zeroing loop (lines 245 to 249), on the payload bytes.\<close>

function calloc_zero :: "(addr \<Rightarrow> 8 word) \<Rightarrow> addr \<Rightarrow> size_t \<Rightarrow> size_t \<Rightarrow> addr \<Rightarrow> 8 word" where
  "calloc_zero m ptr i Total_size =
     (if i < Total_size then calloc_zero (m(ptr + i := 0)) ptr (i + 1) Total_size else m)"
  by pat_completeness auto
termination
proof (relation "measure (\<lambda>(m, ptr, i, Total_size). unat Total_size - unat i)")
  show "wf (measure (\<lambda>(m :: addr \<Rightarrow> 8 word, ptr :: addr, i :: size_t, Total_size :: size_t).
              unat Total_size - unat i))"
    by simp
next
  fix m :: "addr \<Rightarrow> 8 word" and ptr :: addr and i Total_size :: size_t
  assume lt: "i < Total_size"
  then have "unat i < unat Total_size"
    by (simp add: word_less_nat_alt)
  moreover have "unat i + unat (1 :: size_t) < 2 ^ LENGTH(64)"
    using \<open>unat i < unat Total_size\<close> unsigned_less [of Total_size, where 'a = nat]
    by simp
  then have "unat (i + 1) = unat i + 1"
    by (simp add: unat_add_lem [THEN iffD1])
  ultimately show "((m(ptr + i := 0), ptr, i + 1, Total_size), m, ptr, i, Total_size)
        \<in> measure (\<lambda>(m, ptr, i, Total_size). unat Total_size - unat i)"
    by simp
qed

declare calloc_zero.simps [simp del]

definition my_calloc :: "heap \<Rightarrow> size_t \<Rightarrow> size_t \<Rightarrow> (heap \<times> addr) option" where
  "my_calloc h val sz =
     (if sz = 0 \<or> val = 0 then Some (h, NULL)
      else
        (let Total_size = sz * val in
         if Total_size div val \<noteq> sz then Some (h, NULL)
         else
           (case my_malloc h Total_size of
              None \<Rightarrow> None
            | Some (h1, new_pointer) \<Rightarrow>
                if new_pointer = NULL
                then Some (h1\<lparr>err := err h1 @ [''my_calloc failed'']\<rparr>, NULL)
                else Some (h1\<lparr>bytes := calloc_zero (bytes h1) new_pointer 0 Total_size\<rparr>,
                           new_pointer))))"

section \<open>my_realloc\<close>

text \<open>
  \<open>memcpy\<close> of the C library on the payload bytes: the \<open>n\<close> bytes from \<open>src\<close> are
  read before any is written.
\<close>

definition memcpy :: "(addr \<Rightarrow> 8 word) \<Rightarrow> addr \<Rightarrow> addr \<Rightarrow> size_t \<Rightarrow> addr \<Rightarrow> 8 word" where
  "memcpy m dst src n = (\<lambda>a. if a - dst < n then m (src + (a - dst)) else m a)"

text \<open>The in-place branch of \<open>my_realloc\<close> (lines 291 to 315).\<close>

definition realloc_shrink :: "heap \<Rightarrow> addr \<Rightarrow> size_t \<Rightarrow> heap" where
  "realloc_shrink h current aligned_size =
     (let h6 =
        (if aligned_size + sizeof_Block + ALIGNMENT \<le> b_size h current then
           (let new_block = current + sizeof_Block + aligned_size;
                h1 = h\<lparr>b_free := (b_free h)(new_block := 1)\<rparr>;
                h2 = h1\<lparr>b_prev := (b_prev h1)(new_block := current)\<rparr>;
                h3 = h2\<lparr>b_next := (b_next h2)(new_block := b_next h2 current)\<rparr>;
                h4 = h3\<lparr>b_size := (b_size h3)
                        (new_block := b_size h3 current - aligned_size - sizeof_Block)\<rparr>;
                h5 = (if b_next h4 current \<noteq> NULL
                      then h4\<lparr>b_prev := (b_prev h4)(b_next h4 current := new_block)\<rparr>
                      else h4)
            in h5\<lparr>b_next := (b_next h5)(current := new_block)\<rparr>)
         else h)
      in h6\<lparr>b_size := (b_size h6)(current := aligned_size)\<rparr>)"

definition my_realloc :: "heap \<Rightarrow> addr \<Rightarrow> size_t \<Rightarrow> (heap \<times> addr) option" where
  "my_realloc h ptr sz =
     (let aligned_size = ALIGN sz in
      if ptr = NULL then my_malloc h sz
      else if sz = 0 then
        (case my_free h ptr of None \<Rightarrow> None | Some h1 \<Rightarrow> Some (h1, NULL))
      else
        (let current = ptr - sizeof_Block in
         if aligned_size \<le> b_size h current then
           Some (realloc_shrink h current aligned_size, ptr)
         else if b_size h current < aligned_size then
           (case my_malloc h aligned_size of
              None \<Rightarrow> None
            | Some (h1, new_ptr) \<Rightarrow>
                if new_ptr = NULL
                then Some (h1\<lparr>err := err h1 @ [''realoc error'']\<rparr>, NULL)
                else
                  (let h2 = h1\<lparr>bytes := memcpy (bytes h1) new_ptr ptr (b_size h1 current)\<rparr>
                   in case my_free h2 ptr of
                        None \<Rightarrow> None
                      | Some h3 \<Rightarrow> Some (h3, new_ptr)))
         else Some (h\<lparr>err := err h @ [''invalid ptr'']\<rparr>, NULL)))"

section \<open>my_malloc_stats\<close>

text \<open>
  The five counters of \<open>my_malloc_stats\<close>. The report prints them, their sum, and
  either a fragmentation percentage or \<open>N/A\<close>; \<open>frag_shown\<close> records which.
\<close>

record stats =
  total_blocks :: size_t
  free_blocks :: size_t
  used_blocks :: size_t
  used_bytes :: size_t
  free_bytes :: size_t

definition stats_body :: "heap \<Rightarrow> addr \<Rightarrow> stats \<Rightarrow> stats" where
  "stats_body h current s =
     (let s1 = s\<lparr>total_blocks := total_blocks s + 1\<rparr> in
      if b_free h current = 0
      then s1\<lparr>used_blocks := used_blocks s1 + 1, used_bytes := b_size h current\<rparr>
      else if b_free h current = 1
      then s1\<lparr>free_blocks := free_blocks s1 + 1, free_bytes := b_size h current\<rparr>
      else s1)"

partial_function (option) stats_loop :: "heap \<Rightarrow> addr \<Rightarrow> stats \<Rightarrow> stats option" where
  "stats_loop h current s =
     (if current \<noteq> NULL then stats_loop h (b_next h current) (stats_body h current s)
      else Some s)"

definition my_malloc_stats :: "heap \<Rightarrow> (stats \<times> bool) option" where
  "my_malloc_stats h =
     (case stats_loop h (head h)
             \<lparr>total_blocks = 0, free_blocks = 0, used_blocks = 0, used_bytes = 0,
              free_bytes = 0\<rparr> of
        None \<Rightarrow> None
      | Some s \<Rightarrow> Some (s, 0 < used_bytes s + free_bytes s))"


section \<open>The block list as a list of header addresses\<close>

text \<open>
  \<open>seg nx x bs y\<close>: following the link \<open>nx\<close> from \<open>x\<close> visits exactly the headers
  \<open>bs\<close>, none of them \<open>NULL\<close>, and arrives at \<open>y\<close>. With \<open>y = NULL\<close> this is a
  complete list.
\<close>

fun seg :: "(addr \<Rightarrow> addr) \<Rightarrow> addr \<Rightarrow> addr list \<Rightarrow> addr \<Rightarrow> bool" where
  "seg nx x [] y = (x = y)"
| "seg nx x (b # bs) y = (x = b \<and> b \<noteq> NULL \<and> seg nx (nx b) bs y)"

text \<open>\<open>back_links pv p bs\<close>: every header of \<open>bs\<close> points back to its predecessor,
  the first one to \<open>p\<close>.\<close>

fun back_links :: "(addr \<Rightarrow> addr) \<Rightarrow> addr \<Rightarrow> addr list \<Rightarrow> bool" where
  "back_links pv p [] = True"
| "back_links pv p (b # bs) = (pv b = p \<and> back_links pv b bs)"

text \<open>The globals and the links describe the doubly linked list \<open>bs\<close>.\<close>

definition dll :: "heap \<Rightarrow> addr list \<Rightarrow> bool" where
  "dll h bs \<longleftrightarrow> seg (b_next h) (head h) bs NULL \<and> back_links (b_prev h) NULL bs"

text \<open>
  The list of a well-formed arena: it is doubly linked and every header lies below the
  program break, which is neither \<open>NULL\<close> nor within the last header's worth of the
  address space.
\<close>

definition arena_list :: "heap \<Rightarrow> addr list \<Rightarrow> bool" where
  "arena_list h bs \<longleftrightarrow>
     dll h bs \<and> (\<forall>b\<in>set bs. b < brk h) \<and> brk h \<noteq> NULL \<and> brk h < - sizeof_Block"

text \<open>A well-formed arena: moreover \<open>last\<close> is the final header of the list.\<close>

definition arena_ok :: "heap \<Rightarrow> addr list \<Rightarrow> bool" where
  "arena_ok h bs \<longleftrightarrow> arena_list h bs \<and> (bs \<noteq> [] \<longrightarrow> last_blk h = last bs)"

text \<open>
  Wherever a block of \<open>bs\<close> is large enough to be split for a request of
  \<open>aligned_size\<close> bytes, the header of the remainder lands on no header of the list
  and not on \<open>NULL\<close>.
\<close>

definition split_ok :: "heap \<Rightarrow> addr list \<Rightarrow> size_t \<Rightarrow> bool" where
  "split_ok h bs aligned_size \<longleftrightarrow>
     (\<forall>c\<in>set bs. aligned_size + sizeof_Block + ALIGNMENT \<le> b_size h c \<longrightarrow>
        c + sizeof_Block + aligned_size \<notin> set bs \<and> c + sizeof_Block + aligned_size \<noteq> NULL)"

text \<open>The test of the first-fit search.\<close>

definition fits :: "heap \<Rightarrow> size_t \<Rightarrow> addr \<Rightarrow> bool" where
  "fits h aligned_size b \<longleftrightarrow> b_free h b = 1 \<and> aligned_size \<le> b_size h b"

text \<open>Two neighbours of the list are both free.\<close>

fun adjacent_free :: "(addr \<Rightarrow> 32 word) \<Rightarrow> addr list \<Rightarrow> bool" where
  "adjacent_free fr [] = False"
| "adjacent_free fr [x] = False"
| "adjacent_free fr (x # y # zs) = ((fr x = 1 \<and> fr y = 1) \<or> adjacent_free fr (y # zs))"

text \<open>The bytes the list accounts for, headers included, without wrap-around.\<close>

definition list_bytes :: "heap \<Rightarrow> addr list \<Rightarrow> nat" where
  "list_bytes h bs = sum_list (map (\<lambda>b. unat sizeof_Block + unat (b_size h b)) bs)"

text \<open>Everything but the sizes and the links agrees.\<close>

definition same_rest :: "heap \<Rightarrow> heap \<Rightarrow> bool" where
  "same_rest h' h \<longleftrightarrow> b_free h' = b_free h \<and> bytes h' = bytes h \<and> head h' = head h \<and>
     last_blk h' = last_blk h \<and> brk h' = brk h \<and> brk_limit h' = brk_limit h \<and> err h' = err h"

text \<open>Every size field is a multiple of 8.\<close>

definition sizes_aligned :: "heap \<Rightarrow> bool" where
  "sizes_aligned h \<longleftrightarrow> (\<forall>a. 8 dvd b_size h a)"

section \<open>Concrete runs\<close>

text \<open>
  The state at program start: no block, zeroed memory, the break at \<open>0x1000\<close> and room
  up to \<open>0x100000\<close>.
\<close>

definition empty_heap :: heap where
  "empty_heap = \<lparr>b_size = (\<lambda>_. 0), b_free = (\<lambda>_. 0), b_next = (\<lambda>_. 0), b_prev = (\<lambda>_. 0),
     bytes = (\<lambda>_. 0), head = 0, last_blk = 0, brk = 0x1000, brk_limit = 0x100000, err = []\<rparr>"

text \<open>The state a call returned; the state at program start if it did not return.\<close>

definition heap_of :: "(heap \<times> addr) option \<Rightarrow> heap" where
  "heap_of r = (case r of None \<Rightarrow> empty_heap | Some (h, p) \<Rightarrow> h)"

definition freed :: "heap option \<Rightarrow> heap" where
  "freed r = (case r of None \<Rightarrow> empty_heap | Some h \<Rightarrow> h)"

text \<open>Allocate 64 bytes, free them, allocate 8 bytes.\<close>

definition split_h1 :: heap where
  "split_h1 = heap_of (my_malloc empty_heap 64)"

definition split_h2 :: heap where
  "split_h2 = freed (my_free split_h1 0x1020)"

definition split_h3 :: heap where
  "split_h3 = heap_of (my_malloc split_h2 8)"

text \<open>The first two calls of \<open>main\<close>: \<open>my_malloc(32)\<close> and \<open>my_calloc(4, sizeof(int))\<close>.\<close>

definition stats_h1 :: heap where
  "stats_h1 = heap_of (my_malloc empty_heap 32)"

definition stats_h2 :: heap where
  "stats_h2 = heap_of (my_calloc stats_h1 4 4)"

text \<open>
  Four blocks \<open>A\<close> (64 bytes), \<open>B\<close>, \<open>C\<close>, \<open>D\<close> (8 bytes each); \<open>B\<close> is
  freed, \<open>A\<close> is resized to 8 bytes, then \<open>D\<close> is freed.
\<close>

definition coal_h1 :: heap where
  "coal_h1 = heap_of (my_malloc empty_heap 64)"

definition coal_h2 :: heap where
  "coal_h2 = heap_of (my_malloc coal_h1 8)"

definition coal_h3 :: heap where
  "coal_h3 = heap_of (my_malloc coal_h2 8)"

definition coal_h4 :: heap where
  "coal_h4 = heap_of (my_malloc coal_h3 8)"

definition coal_h5 :: heap where
  "coal_h5 = freed (my_free coal_h4 0x1080)"

definition coal_h6 :: heap where
  "coal_h6 = heap_of (my_realloc coal_h5 0x1020 8)"

definition coal_h7 :: heap where
  "coal_h7 = freed (my_free coal_h6 0x10D0)"

text \<open>Five blocks of 8 bytes; the second and the fourth are freed.\<close>

definition merge_h1 :: heap where
  "merge_h1 = heap_of (my_malloc empty_heap 8)"

definition merge_h2 :: heap where
  "merge_h2 = heap_of (my_malloc merge_h1 8)"

definition merge_h3 :: heap where
  "merge_h3 = heap_of (my_malloc merge_h2 8)"

definition merge_h4 :: heap where
  "merge_h4 = heap_of (my_malloc merge_h3 8)"

definition merge_h5 :: heap where
  "merge_h5 = heap_of (my_malloc merge_h4 8)"

definition merge_h6 :: heap where
  "merge_h6 = freed (my_free merge_h5 0x1048)"

definition merge_h7 :: heap where
  "merge_h7 = freed (my_free merge_h6 0x1098)"

text \<open>
  A block of 24 bytes is allocated and freed; then 16 bytes are allocated, freed and
  allocated again.
\<close>

definition reuse_h1 :: heap where
  "reuse_h1 = heap_of (my_malloc empty_heap 24)"

definition reuse_h2 :: heap where
  "reuse_h2 = freed (my_free reuse_h1 0x1020)"

definition reuse_h3 :: heap where
  "reuse_h3 = heap_of (my_malloc reuse_h2 16)"

definition reuse_h4 :: heap where
  "reuse_h4 = freed (my_free reuse_h3 0x1020)"

definition reuse_h5 :: heap where
  "reuse_h5 = heap_of (my_malloc reuse_h4 16)"

text \<open>Blocks \<open>A\<close> and \<open>B\<close> of 16 bytes; \<open>A\<close> is freed; \<open>C\<close> of 16 bytes.\<close>

definition abc_h1 :: heap where
  "abc_h1 = heap_of (my_malloc empty_heap 16)"

definition abc_h2 :: heap where
  "abc_h2 = heap_of (my_malloc abc_h1 16)"

definition abc_h3 :: heap where
  "abc_h3 = freed (my_free abc_h2 0x1020)"

definition abc_h4 :: heap where
  "abc_h4 = heap_of (my_malloc abc_h3 16)"

text \<open>
  A heap on which the operating system grants 64 bytes only; one block of 16 bytes is
  allocated.
\<close>

definition tight_h0 :: heap where
  "tight_h0 = empty_heap\<lparr>brk_limit := 0x1040\<rparr>"

definition tight_h1 :: heap where
  "tight_h1 = heap_of (my_malloc tight_h0 16)"

text \<open>A request of \<open>SIZE_MAX\<close> bytes on the empty heap.\<close>

definition ovf_h1 :: heap where
  "ovf_h1 = heap_of (my_malloc empty_heap 0xFFFFFFFFFFFFFFFF)"

text \<open>
  Two blocks of 8 bytes are allocated and freed, the first one first, so that the second
  is absorbed; the merged block of 48 bytes is allocated; then 16 bytes are allocated,
  freed and allocated again.
\<close>

definition stale_h1 :: heap where
  "stale_h1 = heap_of (my_malloc empty_heap 8)"

definition stale_h2 :: heap where
  "stale_h2 = heap_of (my_malloc stale_h1 8)"

definition stale_h3 :: heap where
  "stale_h3 = freed (my_free stale_h2 0x1020)"

definition stale_h4 :: heap where
  "stale_h4 = freed (my_free stale_h3 0x1048)"

definition stale_h5 :: heap where
  "stale_h5 = heap_of (my_malloc stale_h4 48)"

definition stale_h6 :: heap where
  "stale_h6 = heap_of (my_malloc stale_h5 16)"

definition stale_h7 :: heap where
  "stale_h7 = freed (my_free stale_h6 0x1070)"

definition stale_h8 :: heap where
  "stale_h8 = heap_of (my_malloc stale_h7 16)"


section \<open>Evaluation on concrete states\<close>

lemmas run_simps =
  my_malloc_def malloc_take_def malloc_grow_def sbrk_def NULL_def ALIGN_def ALIGNMENT_def
  sizeof_Block_def malloc_search.simps my_free_def free_fwd.simps free_bck.simps
  free_bck_body_def Let_def my_calloc_def my_realloc_def realloc_shrink_def
  my_malloc_stats_def stats_loop.simps stats_body_def heap_of_def freed_def calloc_zero.simps
  memcpy_def dll_def

section \<open>Lists in the heap\<close>

lemma seg_append: "seg nx x (as @ bs) z \<longleftrightarrow> (\<exists>y. seg nx x as y \<and> seg nx y bs z)"
  by (induction as arbitrary: x) auto

lemma seg_NULL_notin: "seg nx x bs y \<Longrightarrow> NULL \<notin> set bs"
  by (induction bs arbitrary: x) auto

lemma seg_upd_notin: "a \<notin> set bs \<Longrightarrow> seg (nx(a := v)) x bs y \<longleftrightarrow> seg nx x bs y"
  by (induction bs arbitrary: x) auto

lemma seg_eq_on: "seg nx x bs y \<Longrightarrow> (\<And>b. b \<in> set bs \<Longrightarrow> nx' b = nx b) \<Longrightarrow> seg nx' x bs y"
  by (induction bs arbitrary: x) auto

lemma seg_NULL_start: "seg nx NULL bs NULL \<Longrightarrow> bs = []"
  by (cases bs) auto

lemma seg_functional: "seg nx x as NULL \<Longrightarrow> seg nx x bs NULL \<Longrightarrow> as = bs"
proof (induction as arbitrary: x bs)
  case Nil
  then show ?case by (cases bs) auto
next
  case (Cons a as)
  then show ?case by (cases bs) auto
qed

lemma seg_head_notin:
  assumes "seg nx (nx a) as NULL"
  shows "a \<notin> set as"
proof
  assume "a \<in> set as"
  then obtain us vs where as: "as = us @ a # vs"
    by (auto simp: in_set_conv_decomp)
  with assms have "seg nx a (a # vs) NULL"
    by (auto simp: seg_append)
  then have "seg nx (nx a) vs NULL"
    by simp
  with assms have "as = vs"
    by (rule seg_functional)
  with as show False
    by simp
qed

lemma seg_distinct: "seg nx x bs NULL \<Longrightarrow> distinct bs"
  by (induction bs arbitrary: x) (auto dest: seg_head_notin)

lemma back_links_append:
  "back_links pv p (as @ bs) \<longleftrightarrow> back_links pv p as \<and> back_links pv (last (p # as)) bs"
  by (induction as arbitrary: p) auto

lemma back_links_eq_on:
  "back_links pv p bs \<Longrightarrow> (\<And>b. b \<in> set bs \<Longrightarrow> pv' b = pv b) \<Longrightarrow> back_links pv' p bs"
  by (induction bs arbitrary: p) auto

lemma malloc_search_seg:
  "seg (b_next h) x bs NULL \<Longrightarrow>
   malloc_search h x a = Some (case find (fits h a) bs of None \<Rightarrow> NULL | Some c \<Rightarrow> c)"
proof (induction bs arbitrary: x)
  case Nil
  then show ?case by (simp add: malloc_search.simps)
next
  case (Cons b bs)
  then have "x = b" "b \<noteq> NULL" "seg (b_next h) (b_next h b) bs NULL"
    by simp_all
  moreover have "fits h a b \<longleftrightarrow> b_free h b = 1 \<and> a \<le> b_size h b"
    by (simp add: fits_def)
  ultimately show ?case
    using Cons.IH [of "b_next h b"]
    by (subst malloc_search.simps) simp
qed


lemma free_fwd_seg:
  "seg (b_next h) x R y \<Longrightarrow> \<forall>r\<in>set R. b_free h r = 1 \<Longrightarrow> y = NULL \<or> b_free h y \<noteq> 1 \<Longrightarrow>
   fb \<notin> set R \<Longrightarrow>
   free_fwd h fb x =
     Some (h\<lparr>b_size := (b_size h)
              (fb := b_size h fb + sum_list (map (\<lambda>r. sizeof_Block + b_size h r) R))\<rparr>, y)"
proof (induction R arbitrary: h x)
  case Nil
  then show ?case
    by (subst free_fwd.simps) auto
next
  case (Cons r R)
  let ?h = "h\<lparr>b_size := (b_size h)(fb := b_size h fb + (sizeof_Block + b_size h r))\<rparr>"
  from Cons.prems have x: "x = r" "r \<noteq> NULL" "b_free h r = 1" "fb \<noteq> r"
    by auto
  have same: "map (\<lambda>r. sizeof_Block + b_size ?h r) R = map (\<lambda>r. sizeof_Block + b_size h r) R"
    using Cons.prems(4) by auto
  have "free_fwd ?h fb (b_next h r) =
     Some (?h\<lparr>b_size := (b_size ?h)
              (fb := b_size ?h fb + sum_list (map (\<lambda>r. sizeof_Block + b_size ?h r) R))\<rparr>, y)"
    using Cons.prems by (intro Cons.IH) auto
  then have "free_fwd ?h fb (b_next h r) =
     Some (h\<lparr>b_size := (b_size h)
              (fb := b_size h fb + sum_list (map (\<lambda>r. sizeof_Block + b_size h r) (r # R)))\<rparr>, y)"
    unfolding same by (simp add: add.assoc)
  then show ?case
    using x by (subst free_fwd.simps) simp
qed

lemma free_bck_seg:
  "seg (b_prev h) cb L p \<Longrightarrow> \<forall>l\<in>set L. b_free h l = 1 \<Longrightarrow> p = NULL \<or> b_free h p \<noteq> 1 \<Longrightarrow>
   distinct (fb # L) \<Longrightarrow> b_next h fb \<notin> set L \<Longrightarrow>
   \<exists>h'. free_bck h fb cb = Some h' \<and> same_rest h' h \<and>
     b_size h' (last (fb # L)) = b_size h fb + sum_list (map (\<lambda>l. sizeof_Block + b_size h l) L) \<and>
     (\<forall>x. x \<notin> set L \<longrightarrow> b_size h' x = b_size h x) \<and>
     (\<forall>x. b_next h' x = (if x \<in> set L then b_next h fb else b_next h x)) \<and>
     (\<forall>x. b_prev h' x = (if x = b_next h fb \<and> x \<noteq> NULL \<and> L \<noteq> [] then last L else b_prev h x))"
proof (induction L arbitrary: h fb cb)
  case Nil
  then show ?case
    by (subst free_bck.simps) (auto simp: same_rest_def)
next
  case (Cons l L)
  let ?y = "b_next h fb"
  let ?h = "free_bck_body h fb l"
  from Cons.prems have l: "cb = l" "l \<noteq> NULL" "b_free h l = 1" "l \<noteq> fb" "?y \<noteq> l"
    and seg: "seg (b_prev h) (b_prev h l) L p"
    by auto
  have size1: "b_size ?h = (b_size h)(l := b_size h l + (sizeof_Block + b_size h fb))"
    and next1: "b_next ?h = (b_next h)(l := ?y)"
    and prev1: "b_prev ?h = (if ?y \<noteq> NULL then (b_prev h)(?y := l) else b_prev h)"
    and rest1: "same_rest ?h h"
    using l by (auto simp: free_bck_body_def Let_def same_rest_def)
  have "seg (b_prev ?h) (b_prev ?h l) L p"
    using seg Cons.prems(5) l by (auto simp: prev1 seg_upd_notin)
  moreover have "\<forall>l\<in>set L. b_free ?h l = 1" "p = NULL \<or> b_free ?h p \<noteq> 1"
    using Cons.prems rest1 by (auto simp: same_rest_def)
  moreover have "distinct (l # L)" "b_next ?h l \<notin> set L"
    using Cons.prems by (auto simp: next1)
  ultimately obtain h' where h': "free_bck ?h l (b_prev ?h l) = Some h'" "same_rest h' ?h"
    "b_size h' (last (l # L)) = b_size ?h l + sum_list (map (\<lambda>l. sizeof_Block + b_size ?h l) L)"
    "\<forall>x. x \<notin> set L \<longrightarrow> b_size h' x = b_size ?h x"
    "\<forall>x. b_next h' x = (if x \<in> set L then b_next ?h l else b_next ?h x)"
    "\<forall>x. b_prev h' x = (if x = b_next ?h l \<and> x \<noteq> NULL \<and> L \<noteq> [] then last L else b_prev ?h x)"
    using Cons.IH [of ?h "b_prev ?h l" l] by blast
  have "free_bck h fb cb = Some h'"
    using l h'(1) by (subst free_bck.simps) simp
  moreover have "same_rest h' h"
    using h'(2) rest1 by (simp add: same_rest_def)
  moreover have "b_size h' (last (fb # l # L)) =
      b_size h fb + sum_list (map (\<lambda>l. sizeof_Block + b_size h l) (l # L))"
  proof -
    have "map (\<lambda>l. sizeof_Block + b_size ?h l) L = map (\<lambda>l. sizeof_Block + b_size h l) L"
      using Cons.prems(4) by (auto simp: size1)
    then have "b_size h' (last (l # L)) =
        b_size ?h l + sum_list (map (\<lambda>l. sizeof_Block + b_size h l) L)"
      using h'(3) by (simp only:)
    then show ?thesis
      by (simp add: size1 algebra_simps)
  qed
  moreover have "\<forall>x. x \<notin> set (l # L) \<longrightarrow> b_size h' x = b_size h x"
    using h'(4) by (simp add: size1)
  moreover have "\<forall>x. b_next h' x = (if x \<in> set (l # L) then ?y else b_next h x)"
    using h'(5) by (simp add: next1)
  moreover have "\<forall>x. b_prev h' x =
      (if x = ?y \<and> x \<noteq> NULL \<and> l # L \<noteq> [] then last (l # L) else b_prev h x)"
    using h'(6) by (auto simp: next1 prev1)
  ultimately show ?case
    by blast
qed


lemma back_links_rev_seg:
  "back_links pv p (Lf @ [b]) \<Longrightarrow> NULL \<notin> set Lf \<Longrightarrow> seg pv (pv b) (rev Lf) p"
proof (induction Lf arbitrary: b rule: rev_induct)
  case Nil
  then show ?case by simp
next
  case (snoc l Lf)
  from snoc.prems have "back_links pv p (Lf @ [l])" "pv b = l" "l \<noteq> NULL" "NULL \<notin> set Lf"
    by (auto simp: back_links_append)
  with snoc.IH [of l] show ?case
    by simp
qed

lemma sum_list_headers:
  "sum_list (map (\<lambda>r. c + f r) xs) = sum_list (map f xs) + c * of_nat (length xs)"
  for c :: size_t
  by (induction xs) (simp_all add: algebra_simps)

lemma my_free_effect:
  assumes dll: "dll h (pre @ Lf @ b # R @ post)"
    and free: "\<forall>x\<in>set Lf \<union> set R. b_free h x = 1"
    and before: "pre = [] \<or> b_free h (last pre) \<noteq> 1"
    and after: "post = [] \<or> b_free h (hd post) \<noteq> 1"
    and ptr: "b + sizeof_Block \<noteq> NULL"
  shows "\<exists>h'. my_free h (b + sizeof_Block) = Some h' \<and>
           dll h' (pre @ hd (Lf @ [b]) # post) \<and>
           b_free h' = (b_free h)(b := 1) \<and>
           b_size h' (hd (Lf @ [b])) =
             sum_list (map (b_size h) (Lf @ b # R)) + sizeof_Block * of_nat (length Lf + length R) \<and>
           (\<forall>x. x \<notin> set (Lf @ [b]) \<longrightarrow> b_size h' x = b_size h x) \<and>
           bytes h' = bytes h \<and> head h' = head h \<and> last_blk h' = last_blk h \<and>
           brk h' = brk h \<and> brk_limit h' = brk_limit h \<and> err h' = err h"
proof -
  let ?bs = "pre @ Lf @ b # R @ post"
  let ?m = "hd (Lf @ [b])"
  let ?p = "last (NULL # pre)"
  from dll have nxt: "seg (b_next h) (head h) ?bs NULL" and bck: "back_links (b_prev h) NULL ?bs"
    by (simp_all add: dll_def)
  from nxt have dist: "distinct ?bs" and nonull: "NULL \<notin> set ?bs"
    by (rule seg_distinct, rule seg_NULL_notin)
  from nxt obtain y where pre: "seg (b_next h) (head h) (pre @ Lf) b" and b: "b \<noteq> NULL"
    and R: "seg (b_next h) (b_next h b) R y" and post: "seg (b_next h) y post NULL"
    by (auto simp: seg_append)
  have y_post: "y = (if post = [] then NULL else hd post)"
    using post by (cases post) auto
  have y_notin: "y \<notin> set pre" "y \<notin> set Lf" "y \<noteq> b" "y \<notin> set R"
    using dist nonull y_post by (cases post; auto)+
  have m_in: "?m \<in> set (Lf @ [b])"
    by (cases Lf) auto
  have m_last: "last (b # rev Lf) = ?m"
    by (cases Lf) (auto simp: last_rev)
  have m_notin: "?m \<notin> set pre" "?m \<notin> set post" "?m \<noteq> NULL" "?m \<noteq> y"
    using dist nonull m_in y_post by (cases post; auto)+
  have pre_m: "seg (b_next h) (head h) pre ?m"
    using pre by (cases Lf) (auto simp: seg_append)
  have p_m: "b_prev h ?m = ?p"
    using bck by (cases Lf) (auto simp: back_links_append)
  \<comment> \<open>the pointer is turned back into the header, which is marked free\<close>
  let ?h1 = "h\<lparr>b_free := (b_free h)(b := 1)\<rparr>"
  have y_free: "y = NULL \<or> b_free ?h1 y \<noteq> 1"
    using after y_post y_notin by auto
  \<comment> \<open>forward loop\<close>
  let ?sR = "b_size h b + sum_list (map (\<lambda>r. sizeof_Block + b_size h r) R)"
  let ?h2 = "?h1\<lparr>b_size := (b_size h)(b := ?sR)\<rparr>"
  have fwd: "free_fwd ?h1 b (b_next ?h1 b) = Some (?h2, y)"
  proof -
    have "seg (b_next ?h1) (b_next ?h1 b) R y" "\<forall>r\<in>set R. b_free ?h1 r = 1" "b \<notin> set R"
      using R free dist by auto
    from free_fwd_seg [OF this(1,2) y_free this(3)] show ?thesis
      by simp
  qed
  \<comment> \<open>relinking past the absorbed blocks\<close>
  let ?h3 = "?h2\<lparr>b_next := (b_next h)(b := y)\<rparr>"
  let ?h4 = "if y \<noteq> NULL then ?h3\<lparr>b_prev := (b_prev h)(y := b)\<rparr> else ?h3"
  have h4: "b_free ?h4 = (b_free h)(b := 1)" "b_size ?h4 = (b_size h)(b := ?sR)"
    "b_next ?h4 = (b_next h)(b := y)"
    "b_prev ?h4 = (if y \<noteq> NULL then (b_prev h)(y := b) else b_prev h)"
    "bytes ?h4 = bytes h" "head ?h4 = head h" "last_blk ?h4 = last_blk h" "brk ?h4 = brk h"
    "brk_limit ?h4 = brk_limit h" "err ?h4 = err h"
    by simp_all
  have free_eq: "my_free h (b + sizeof_Block) = free_bck ?h4 b (b_prev ?h4 b)"
    using ptr fwd by (simp add: my_free_def Let_def)
  \<comment> \<open>backward loop\<close>
  have p_free: "?p = NULL \<or> b_free ?h4 ?p \<noteq> 1"
    using before dist by (cases pre rule: rev_cases) auto
  have "back_links (b_prev h) ?p (Lf @ [b])"
    using bck by (simp add: back_links_append)
  then have "seg (b_prev h) (b_prev h b) (rev Lf) ?p"
    using nonull by (intro back_links_rev_seg) auto
  then have segp: "seg (b_prev ?h4) (b_prev ?h4 b) (rev Lf) ?p"
    using y_notin by (auto simp: seg_upd_notin)
  have "\<forall>l\<in>set (rev Lf). b_free ?h4 l = 1" "distinct (b # rev Lf)" "b_next ?h4 b \<notin> set (rev Lf)"
    using free dist y_notin by auto
  from free_bck_seg [OF segp this(1) p_free this(2,3)]
  obtain h' where h': "free_bck ?h4 b (b_prev ?h4 b) = Some h'" "same_rest h' ?h4"
    "b_size h' ?m = b_size ?h4 b + sum_list (map (\<lambda>l. sizeof_Block + b_size ?h4 l) (rev Lf))"
    "\<forall>x. x \<notin> set (rev Lf) \<longrightarrow> b_size h' x = b_size ?h4 x"
    "\<forall>x. b_next h' x = (if x \<in> set (rev Lf) then b_next ?h4 b else b_next ?h4 x)"
    "\<forall>x. b_prev h' x =
       (if x = b_next ?h4 b \<and> x \<noteq> NULL \<and> rev Lf \<noteq> [] then last (rev Lf) else b_prev ?h4 x)"
    unfolding m_last by blast
  have next': "b_next h' x = (if x \<in> set (Lf @ [b]) then y else b_next h x)" for x
    using h'(5) by (simp add: h4)
  have prev': "b_prev h' x = (if x = y \<and> y \<noteq> NULL then ?m else b_prev h x)" for x
    using h'(6) by (cases Lf) (auto simp: h4 last_rev)
  have rest': "b_free h' = (b_free h)(b := 1)" "bytes h' = bytes h" "head h' = head h"
    "last_blk h' = last_blk h" "brk h' = brk h" "brk_limit h' = brk_limit h" "err h' = err h"
    using h'(2) by (simp_all add: same_rest_def h4)
  \<comment> \<open>the list after the call\<close>
  have "seg (b_next h') (head h) pre ?m"
    using pre_m
  proof (rule seg_eq_on)
    show "\<And>x. x \<in> set pre \<Longrightarrow> b_next h' x = b_next h x"
      using dist by (auto simp: next')
  qed
  moreover have "seg (b_next h') y post NULL"
    using post
  proof (rule seg_eq_on)
    show "\<And>x. x \<in> set post \<Longrightarrow> b_next h' x = b_next h x"
      using dist by (auto simp: next')
  qed
  moreover have "b_next h' ?m = y"
    using m_in by (simp only: next' if_True)
  ultimately have seg': "seg (b_next h') (head h') (pre @ ?m # post) NULL"
    using m_notin by (auto simp: seg_append rest')
  have "back_links (b_prev h) NULL pre"
    using bck by (simp add: back_links_append)
  then have "back_links (b_prev h') NULL pre"
  proof (rule back_links_eq_on)
    show "\<And>x. x \<in> set pre \<Longrightarrow> b_prev h' x = b_prev h x"
      using y_notin by (auto simp: prev')
  qed
  moreover have "b_prev h' ?m = ?p"
    using m_notin p_m by (simp add: prev')
  moreover have "back_links (b_prev h') ?m post"
  proof (cases post)
    case Nil
    then show ?thesis by simp
  next
    case (Cons z zs)
    then have z: "y = z" "z \<noteq> NULL" "z \<notin> set zs"
      using y_post dist nonull by auto
    have "back_links (b_prev h) z zs"
      using bck Cons by (simp add: back_links_append)
    then have "back_links (b_prev h') z zs"
    proof (rule back_links_eq_on)
      show "\<And>x. x \<in> set zs \<Longrightarrow> b_prev h' x = b_prev h x"
        using z by (auto simp: prev')
    qed
    then show ?thesis
      using Cons z by (simp add: prev')
  qed
  ultimately have back': "back_links (b_prev h') NULL (pre @ ?m # post)"
    by (simp add: back_links_append)
  \<comment> \<open>the size of the merged block\<close>
  have "map (\<lambda>l. sizeof_Block + b_size ?h4 l) (rev Lf) = map (\<lambda>l. sizeof_Block + b_size h l) (rev Lf)"
    using dist by auto
  then have "b_size h' ?m = ?sR + sum_list (map (\<lambda>l. sizeof_Block + b_size h l) (rev Lf))"
    using h'(3) by (simp only: h4 fun_upd_same)
  then have size': "b_size h' ?m =
      sum_list (map (b_size h) (Lf @ b # R)) + sizeof_Block * of_nat (length Lf + length R)"
    by (simp add: sum_list_headers rev_map [symmetric] algebra_simps)
  have other: "\<forall>x. x \<notin> set (Lf @ [b]) \<longrightarrow> b_size h' x = b_size h x"
    using h'(4) by (simp add: h4)
  show ?thesis
    using free_eq h'(1) seg' back' size' other rest' by (simp add: dll_def)
qed

section \<open>Alignment\<close>

lemma and_minus_8: "(x :: size_t) AND - 8 = push_bit 3 (drop_bit 3 x)"
proof -
  have "(- 8 :: size_t) = NOT (mask 3)"
    by (simp add: mask_eq_exp_minus_1)
  then show ?thesis
    by (auto simp: bit_eq_iff bit_simps)
qed

lemma unat_and_minus_8: "unat ((x :: size_t) AND - 8) = unat x div 8 * 8"
proof -
  have "unat x div 8 * 8 \<le> unat x"
    by simp
  then have "unat (x div 8) * unat (8 :: size_t) < 2 ^ LENGTH(64)"
    using unsigned_less [of x, where 'a = nat] by (simp add: unat_div)
  then have "unat (x div 8 * 8) = unat (x div 8) * unat (8 :: size_t)"
    by (simp only: unat_mult_lem [THEN iffD1])
  then show ?thesis
    by (simp add: and_minus_8 push_bit_eq_mult drop_bit_eq_div unat_div)
qed

lemma unat_ALIGN: "unat (ALIGN sz) = ((unat sz + 7) mod 2 ^ 64) div 8 * 8"
  by (simp add: ALIGN_def ALIGNMENT_def unat_and_minus_8 unat_word_ariths)

lemma ALIGN_0: "ALIGN 0 = 0"
  by (simp add: ALIGN_def ALIGNMENT_def)

lemma ALIGN_ge: "unat sz \<le> 2 ^ 64 - 8 \<Longrightarrow> sz \<le> ALIGN sz"
  by (simp add: word_le_nat_alt unat_ALIGN)

lemma ALIGN_dvd: "8 dvd unat (ALIGN sz)"
  by (simp add: unat_ALIGN)

lemma ALIGN_idem: "ALIGN (ALIGN sz) = ALIGN sz"
proof -
  obtain k where k: "unat (ALIGN sz) = 8 * k"
    using ALIGN_dvd [of sz] by (elim dvdE)
  have "8 * k < 2 ^ 64"
    using unsigned_less [of "ALIGN sz", where 'a = nat] k by simp
  then have "8 * k + 7 < 2 ^ 64"
    by simp
  then have "((8 * k + 7) mod 2 ^ 64) div 8 * 8 = 8 * k"
    by simp
  then have "unat (ALIGN (ALIGN sz)) = unat (ALIGN sz)"
    by (simp add: unat_ALIGN [of "ALIGN sz"] k)
  then show ?thesis
    by (rule word_unat_eq_iff [THEN iffD2])
qed

section \<open>The zeroing loop and the overflow check of my_calloc\<close>



lemma mult_overflow_detected:
  fixes val sz :: size_t
  assumes "val \<noteq> 0"
  shows "(sz * val) div val \<noteq> sz \<longleftrightarrow> 2 ^ 64 \<le> unat val * unat sz"
proof
  assume ne: "(sz * val) div val \<noteq> sz"
  show "2 ^ 64 \<le> unat val * unat sz"
  proof (rule ccontr)
    assume "\<not> 2 ^ 64 \<le> unat val * unat sz"
    then have "unat sz * unat val < 2 ^ LENGTH(64)"
      by (simp add: mult.commute)
    then have "sz * val div val = sz"
      using assms by (intro word_div_mult) (simp_all add: word_greater_zero_iff)
    with ne show False by simp
  qed
next
  assume ov: "2 ^ 64 \<le> unat val * unat sz"
  show "(sz * val) div val \<noteq> sz"
  proof
    assume eq: "(sz * val) div val = sz"
    have "unat ((sz * val) div val) = unat (sz * val) div unat val"
      by (simp add: unat_div)
    then have "unat sz = unat (sz * val) div unat val"
      using eq by simp
    then have "unat sz * unat val \<le> unat (sz * val)"
      using div_times_less_eq_dividend [of "unat (sz * val)" "unat val"] by simp
    moreover have "unat (sz * val) < 2 ^ 64"
      using unsigned_less [of "sz * val", where 'a = nat] by simp
    ultimately show False
      using ov by (simp add: mult.commute)
  qed
qed

section \<open>The block my_malloc returns\<close>

lemma malloc_search_fits:
  assumes "malloc_search h x a = Some c" "c \<noteq> NULL"
  shows "fits h a c"
proof -
  have "c \<noteq> NULL \<longrightarrow> fits h a c"
    by (rule malloc_search.raw_induct [where P = "\<lambda>h x a c. c \<noteq> NULL \<longrightarrow> fits h a c", OF _ assms(1)])
      (auto simp: fits_def split: if_splits)
  with assms(2) show ?thesis
    by simp
qed

lemma malloc_take_ptr: "snd (malloc_take h c a) = c + sizeof_Block"
  by (simp add: malloc_take_def Let_def)

lemma malloc_take_size:
  "b_size (fst (malloc_take h c a)) c = b_size h c"
proof -
  have "c + sizeof_Block + a = c \<Longrightarrow> b_size h c - a - sizeof_Block = b_size h c"
  proof -
    assume "c + sizeof_Block + a = c"
    then have "sizeof_Block + a = 0"
      by (simp add: add.assoc)
    then have "a + sizeof_Block = 0"
      by (simp add: add.commute)
    then show ?thesis
      by (simp add: diff_diff_eq)
  qed
  then show ?thesis
    by (auto simp: malloc_take_def Let_def)
qed

lemma malloc_take_brk: "brk (fst (malloc_take h c a)) = brk h"
  by (simp add: malloc_take_def Let_def)

lemma malloc_grow_size:
  "malloc_grow h a = (h1, p) \<Longrightarrow> p \<noteq> NULL \<Longrightarrow> b_size h1 (p - sizeof_Block) = a"
  by (auto simp: malloc_grow_def sbrk_def Let_def split: if_splits)

lemma my_malloc_capacity:
  assumes "my_malloc h sz = Some (h1, p)" "p \<noteq> NULL"
  shows "ALIGN sz \<le> b_size h1 (p - sizeof_Block)"
proof -
  from assms(1) obtain c where c: "malloc_search h (head h) (ALIGN sz) = Some c"
    and res: "(h1, p) = (if c \<noteq> NULL then malloc_take h c (ALIGN sz) else malloc_grow h (ALIGN sz))"
    by (auto simp: my_malloc_def Let_def split: option.splits)
  show ?thesis
  proof (cases "c = NULL")
    case True
    with res have "malloc_grow h (ALIGN sz) = (h1, p)"
      by simp
    from malloc_grow_size [OF this assms(2)] show ?thesis
      by simp
  next
    case False
    with res have "h1 = fst (malloc_take h c (ALIGN sz))" "p = snd (malloc_take h c (ALIGN sz))"
      by (simp_all add: prod_eq_iff)
    then have "b_size h1 (p - sizeof_Block) = b_size h c"
      by (simp add: malloc_take_ptr malloc_take_size)
    moreover have "fits h (ALIGN sz) c"
      using c False by (rule malloc_search_fits)
    ultimately show ?thesis
      by (simp add: fits_def)
  qed
qed

section \<open>my_malloc on a well-formed arena\<close>

lemma dll_cong:
  "dll h bs \<Longrightarrow> b_next h' = b_next h \<Longrightarrow> b_prev h' = b_prev h \<Longrightarrow> head h' = head h \<Longrightarrow> dll h' bs"
  by (simp add: dll_def)

lemma list_bytes_append: "list_bytes h (as @ bs) = list_bytes h as + list_bytes h bs"
  by (simp add: list_bytes_def)

lemma list_bytes_cong:
  "(\<And>b. b \<in> set bs \<Longrightarrow> b_size h' b = b_size h b) \<Longrightarrow> list_bytes h' bs = list_bytes h bs"
  unfolding list_bytes_def by (rule arg_cong [where f = sum_list]) simp

lemma list_bytes_member: "c \<in> set bs \<Longrightarrow> unat (b_size h c) \<le> list_bytes h bs"
  by (induction bs) (auto simp: list_bytes_def)

lemma malloc_take_dll:
  assumes dll: "dll h bs" and c: "c \<in> set bs" and split: "split_ok h bs a"
  shows "\<exists>bs1. dll (fst (malloc_take h c a)) bs1 \<and> set bs \<subseteq> set bs1 \<and>
           (unat a + 40 < 2 ^ 64 \<longrightarrow>
              list_bytes (fst (malloc_take h c a)) bs1 \<le> list_bytes h bs + unat (b_size h c))"
proof (cases "a + sizeof_Block + ALIGNMENT \<le> b_size h c")
  case False
  then have "fst (malloc_take h c a) = h\<lparr>b_free := (b_free h)(c := 0)\<rparr>"
    by (simp add: malloc_take_def Let_def)
  moreover have "dll (h\<lparr>b_free := (b_free h)(c := 0)\<rparr>) bs"
    using dll by (rule dll_cong) simp_all
  moreover have "list_bytes (h\<lparr>b_free := (b_free h)(c := 0)\<rparr>) bs = list_bytes h bs"
    by (rule list_bytes_cong) simp
  ultimately show ?thesis
    by (intro exI [of _ bs]) simp
next
  case True
  let ?N = "c + sizeof_Block + a"
  let ?h = "fst (malloc_take h c a)"
  from split c True have N: "?N \<notin> set bs" "?N \<noteq> NULL"
    by (auto simp: split_ok_def)
  from c obtain pre post where bs: "bs = pre @ c # post"
    by (auto simp: in_set_conv_decomp)
  from dll have nxt: "seg (b_next h) (head h) bs NULL" and bck: "back_links (b_prev h) NULL bs"
    by (simp_all add: dll_def)
  from nxt have dist: "distinct bs" and nonull: "NULL \<notin> set bs"
    by (rule seg_distinct, rule seg_NULL_notin)
  let ?y = "b_next h c"
  from nxt have pre: "seg (b_next h) (head h) pre c" and post: "seg (b_next h) ?y post NULL"
    by (auto simp: bs seg_append)
  have y_post: "?y = (if post = [] then NULL else hd post)"
    using post by (cases post) auto
  have y_notin: "?y \<notin> set pre" "?y \<noteq> c" "?y \<noteq> ?N"
    using dist nonull N y_post by (cases post; auto simp: bs)+
  have Nc: "?N \<noteq> c" "?N \<notin> set pre" "?N \<notin> set post" "c \<notin> set pre" "c \<notin> set post" "c \<noteq> NULL"
    using N c dist nonull by (auto simp: bs)
  have fields: "b_next ?h = (b_next h)(?N := ?y, c := ?N)"
    "b_prev ?h = (if ?y \<noteq> NULL then (b_prev h)(?N := c, ?y := ?N) else (b_prev h)(?N := c))"
    "head ?h = head h"
    "b_size ?h = (b_size h)(?N := b_size h c - a - sizeof_Block)"
    using True Nc(1) by (auto simp: malloc_take_def Let_def)
  have "seg (b_next ?h) (head ?h) pre c"
    using pre Nc by (simp add: fields seg_upd_notin)
  moreover have "seg (b_next ?h) ?y post NULL"
    using post Nc by (simp add: fields seg_upd_notin)
  moreover have "b_next ?h c = ?N" "b_next ?h ?N = ?y"
    using Nc by (simp_all add: fields)
  ultimately have seg': "seg (b_next ?h) (head ?h) (pre @ c # ?N # post) NULL"
    using N Nc by (auto simp: seg_append)
  have "back_links (b_prev h) NULL pre"
    using bck by (simp add: bs back_links_append)
  then have "back_links (b_prev ?h) NULL pre"
  proof (rule back_links_eq_on)
    show "\<And>x. x \<in> set pre \<Longrightarrow> b_prev ?h x = b_prev h x"
      using y_notin Nc by (auto simp: fields)
  qed
  moreover have "b_prev ?h c = last (NULL # pre)"
    using bck y_notin Nc by (auto simp: fields bs back_links_append)
  moreover have "b_prev ?h ?N = c"
    using y_notin by (auto simp: fields)
  moreover have "back_links (b_prev ?h) ?N post"
  proof (cases post)
    case Nil
    then show ?thesis by simp
  next
    case (Cons z zs)
    then have z: "?y = z" "z \<noteq> NULL" "z \<notin> set zs" "?N \<notin> set zs"
      using y_post dist nonull Nc by (auto simp: bs)
    have "back_links (b_prev h) z zs"
      using bck Cons by (simp add: bs back_links_append)
    then have "back_links (b_prev ?h) z zs"
    proof (rule back_links_eq_on)
      show "\<And>x. x \<in> set zs \<Longrightarrow> b_prev ?h x = b_prev h x"
        using z by (auto simp: fields)
    qed
    then show ?thesis
      using Cons z by (simp add: fields)
  qed
  ultimately have back': "back_links (b_prev ?h) NULL (pre @ c # ?N # post)"
    by (simp add: back_links_append)
  have bytes': "list_bytes ?h (pre @ c # ?N # post) \<le> list_bytes h bs + unat (b_size h c)"
    if small: "unat a + 40 < 2 ^ 64"
  proof -
    have "unat (a + sizeof_Block + ALIGNMENT) = unat a + 40"
      using small by (simp add: unat_word_ariths sizeof_Block_def ALIGNMENT_def)
    then have le: "unat a + 40 \<le> unat (b_size h c)"
      using True by (simp add: word_le_nat_alt)
    have "a + sizeof_Block \<le> b_size h c"
      using le small by (simp add: word_le_nat_alt unat_word_ariths sizeof_Block_def)
    then have "unat (b_size h c - (a + sizeof_Block)) = unat (b_size h c) - unat (a + sizeof_Block)"
      by (rule unat_sub)
    then have rem: "unat (b_size h c - a - sizeof_Block) \<le> unat (b_size h c) - 32"
      using small by (simp add: diff_diff_eq unat_word_ariths sizeof_Block_def)
    have "list_bytes ?h pre = list_bytes h pre" "list_bytes ?h post = list_bytes h post"
      "list_bytes ?h [c] = list_bytes h [c]"
      using Nc by (auto intro!: list_bytes_cong simp: fields)
    moreover have "list_bytes ?h [?N] = 32 + unat (b_size h c - a - sizeof_Block)"
      by (simp add: list_bytes_def fields sizeof_Block_def)
    moreover have "list_bytes ?h (pre @ c # ?N # post) =
        list_bytes ?h pre + list_bytes ?h [c] + list_bytes ?h [?N] + list_bytes ?h post"
      by (simp add: list_bytes_def)
    moreover have "list_bytes h bs = list_bytes h pre + list_bytes h [c] + list_bytes h post"
      by (simp add: list_bytes_def bs)
    ultimately show ?thesis
      using rem le by simp
  qed
  show ?thesis
    using seg' back' bytes' by (intro exI [of _ "pre @ c # ?N # post"]) (auto simp: dll_def bs)
qed


lemma below_minus_header:
  fixes c :: addr
  assumes "c < - sizeof_Block"
  shows "c + sizeof_Block \<noteq> NULL" "c \<noteq> - 1"
proof -
  show "c + sizeof_Block \<noteq> NULL"
  proof
    assume "c + sizeof_Block = NULL"
    then have "c = - sizeof_Block"
      by (simp add: NULL_def eq_neg_iff_add_eq_0)
    with assms show False by simp
  qed
  show "c \<noteq> - 1"
    using assms by (auto simp: sizeof_Block_def)
qed

lemma malloc_grow_fail:
  assumes "brk h < - sizeof_Block" "malloc_grow h a = (h1, NULL)"
  shows "h1 = h\<lparr>err := err h @ [''sbrk error'']\<rparr>"
  using assms(2) below_minus_header [OF assms(1)]
  by (auto simp: malloc_grow_def sbrk_def Let_def split: if_splits)

lemma malloc_grow_dll:
  assumes ok: "arena_ok h bs" and res: "malloc_grow h a = (h1, p)" and p: "p \<noteq> NULL"
  shows "dll h1 (bs @ [brk h]) \<and> p = brk h + sizeof_Block \<and>
         list_bytes h1 (bs @ [brk h]) = list_bytes h bs + 32 + unat a"
proof -
  let ?n = "brk h"
  from ok have nxt: "seg (b_next h) (head h) bs NULL" and bck: "back_links (b_prev h) NULL bs"
    and last: "bs \<noteq> [] \<longrightarrow> last_blk h = last bs" and below: "\<forall>b\<in>set bs. b < ?n"
    and n: "?n \<noteq> NULL" "?n < - sizeof_Block"
    by (simp_all add: arena_ok_def arena_list_def dll_def)
  from below have fresh: "?n \<notin> set bs"
    by auto
  from nxt have dist: "distinct bs"
    by (rule seg_distinct)
  have succ: "unat (brk h) + unat (a + sizeof_Block) \<le> unat (brk_limit h)"
    using res p by (auto simp: malloc_grow_def sbrk_def split: if_splits)
  have size1: "b_size h1 = (b_size h)(?n := a)" and ptr: "p = ?n + sizeof_Block"
    using res succ below_minus_header [OF n(2)]
    by (auto simp: malloc_grow_def sbrk_def Let_def split: if_splits)
  have "dll h1 (bs @ [?n])"
  proof (cases bs rule: rev_cases)
    case Nil
    then have "head h = NULL"
      using nxt by simp
    then have "head h1 = ?n" "b_next h1 ?n = NULL" "b_prev h1 ?n = NULL"
      using res succ below_minus_header [OF n(2)]
      by (auto simp: malloc_grow_def sbrk_def Let_def split: if_splits)
    then show ?thesis
      using Nil n by (simp add: dll_def)
  next
    case (snoc bs' l)
    then have l: "last_blk h = l" "l \<noteq> ?n" "l \<notin> set bs'" "?n \<notin> set bs'"
      using last fresh dist by auto
    have "head h \<noteq> NULL"
      using nxt snoc by (cases bs') auto
    then have fields: "head h1 = head h" "b_next h1 = (b_next h)(?n := NULL, l := ?n)"
      "b_prev h1 = (b_prev h)(?n := l)"
      using res succ below_minus_header [OF n(2)] l
      by (auto simp: malloc_grow_def sbrk_def Let_def split: if_splits)
    have "seg (b_next h) (head h) bs' l" "l \<noteq> NULL"
      using nxt snoc by (auto simp: seg_append)
    then have "seg (b_next h1) (head h1) (bs' @ [l, ?n]) NULL"
      using l n by (auto simp: fields seg_append seg_upd_notin)
    moreover have "back_links (b_prev h) NULL (bs' @ [l])"
      using bck snoc by simp
    then have "back_links (b_prev h1) NULL (bs' @ [l])"
    proof (rule back_links_eq_on)
      show "\<And>x. x \<in> set (bs' @ [l]) \<Longrightarrow> b_prev h1 x = b_prev h x"
        using l by (auto simp: fields)
    qed
    then have "back_links (b_prev h1) NULL ((bs' @ [l]) @ [?n])"
      unfolding back_links_append [of _ _ "bs' @ [l]"] by (simp add: fields)
    ultimately show ?thesis
      using snoc by (simp add: dll_def)
  qed
  moreover have "list_bytes h1 bs = list_bytes h bs"
    using fresh by (auto intro!: list_bytes_cong simp: size1)
  then have "list_bytes h1 (bs @ [?n]) = list_bytes h bs + 32 + unat a"
    by (simp add: list_bytes_append) (simp add: list_bytes_def size1 sizeof_Block_def)
  ultimately show ?thesis
    using ptr by simp
qed

lemma find_fits:
  "find (fits h a) bs = Some c \<Longrightarrow> c \<in> set bs \<and> fits h a c"
  by (auto simp: find_Some_iff)

lemma my_malloc_search:
  assumes "seg (b_next h) (head h) bs NULL"
  shows "my_malloc h sz =
     Some (case find (fits h (ALIGN sz)) bs of
             None \<Rightarrow> malloc_grow h (ALIGN sz)
           | Some c \<Rightarrow> malloc_take h c (ALIGN sz))"
proof (cases "find (fits h (ALIGN sz)) bs")
  case None
  then show ?thesis
    by (simp add: my_malloc_def Let_def malloc_search_seg [OF assms])
next
  case (Some c)
  then have "c \<in> set bs"
    by (simp add: find_fits)
  then have "c \<noteq> NULL"
    using seg_NULL_notin [OF assms] by auto
  then show ?thesis
    using Some by (simp add: my_malloc_def Let_def malloc_search_seg [OF assms])
qed

lemma my_malloc_NULL:
  assumes nxt: "seg (b_next h) (head h) bs NULL" and below: "\<forall>b\<in>set bs. b < brk h"
    and brk: "brk h < - sizeof_Block" and res: "my_malloc h sz = Some (h1, NULL)"
  shows "h1 = h\<lparr>err := err h @ [''sbrk error'']\<rparr>"
proof (cases "find (fits h (ALIGN sz)) bs")
  case None
  with res have "malloc_grow h (ALIGN sz) = (h1, NULL)"
    by (simp add: my_malloc_search [OF nxt])
  with brk show ?thesis
    by (rule malloc_grow_fail)
next
  case (Some c)
  then have "c \<in> set bs"
    by (simp add: find_fits)
  with below brk have "c < - sizeof_Block"
    by auto
  then have "c + sizeof_Block \<noteq> NULL"
    by (rule below_minus_header)
  moreover from res Some have "snd (malloc_take h c (ALIGN sz)) = NULL"
    by (simp add: my_malloc_search [OF nxt])
  ultimately show ?thesis
    by (simp add: malloc_take_ptr)
qed

lemma my_malloc_effect:
  assumes ok: "arena_ok h bs" and split: "split_ok h bs (ALIGN sz)"
  shows "\<exists>h1 p. my_malloc h sz = Some (h1, p) \<and>
           (p = NULL \<and> h1 = h\<lparr>err := err h @ [''sbrk error'']\<rparr> \<or>
            p \<noteq> NULL \<and>
            (\<exists>bs1. dll h1 bs1 \<and> set bs \<subseteq> set bs1 \<and> p - sizeof_Block \<in> set bs1 \<and>
               (unat (ALIGN sz) + 40 < 2 ^ 64 \<longrightarrow>
                  list_bytes h1 bs1 \<le> 2 * list_bytes h bs + unat (ALIGN sz) + 32)))"
proof -
  from ok have nxt: "seg (b_next h) (head h) bs NULL" and dll: "dll h bs"
    and below: "\<forall>b\<in>set bs. b < brk h" and brk: "brk h < - sizeof_Block"
    by (simp_all add: arena_ok_def arena_list_def dll_def)
  show ?thesis
  proof (cases "find (fits h (ALIGN sz)) bs")
    case None
    obtain h1 p where grow: "malloc_grow h (ALIGN sz) = (h1, p)"
      by (cases "malloc_grow h (ALIGN sz)")
    then have res: "my_malloc h sz = Some (h1, p)"
      using None by (simp add: my_malloc_search [OF nxt])
    show ?thesis
    proof (cases "p = NULL")
      case True
      with grow brk have "h1 = h\<lparr>err := err h @ [''sbrk error'']\<rparr>"
        by (simp add: malloc_grow_fail)
      with res True show ?thesis
        by simp
    next
      case False
      from malloc_grow_dll [OF ok grow False]
      have "dll h1 (bs @ [brk h])" "p - sizeof_Block = brk h"
        "list_bytes h1 (bs @ [brk h]) = list_bytes h bs + 32 + unat (ALIGN sz)"
        by simp_all
      then have "\<exists>bs1. dll h1 bs1 \<and> set bs \<subseteq> set bs1 \<and> p - sizeof_Block \<in> set bs1 \<and>
               (unat (ALIGN sz) + 40 < 2 ^ 64 \<longrightarrow>
                  list_bytes h1 bs1 \<le> 2 * list_bytes h bs + unat (ALIGN sz) + 32)"
        by (intro exI [of _ "bs @ [brk h]"]) auto
      with res False show ?thesis
        by blast
    qed
  next
    case (Some c)
    then have c: "c \<in> set bs"
      by (simp add: find_fits)
    let ?h1 = "fst (malloc_take h c (ALIGN sz))"
    let ?p = "c + sizeof_Block"
    have res: "my_malloc h sz = Some (?h1, ?p)"
      using Some by (simp add: my_malloc_search [OF nxt] prod_eq_iff malloc_take_ptr)
    have "c < - sizeof_Block"
      using c below brk by auto
    then have p: "?p \<noteq> NULL"
      by (rule below_minus_header)
    from malloc_take_dll [OF dll c split] obtain bs1 where bs1: "dll ?h1 bs1" "set bs \<subseteq> set bs1"
      "unat (ALIGN sz) + 40 < 2 ^ 64 \<longrightarrow> list_bytes ?h1 bs1 \<le> list_bytes h bs + unat (b_size h c)"
      by blast
    have "unat (b_size h c) \<le> list_bytes h bs"
      using c by (rule list_bytes_member)
    then have "unat (ALIGN sz) + 40 < 2 ^ 64 \<longrightarrow>
        list_bytes ?h1 bs1 \<le> 2 * list_bytes h bs + unat (ALIGN sz) + 32"
      using bs1(3) by auto
    then have "\<exists>bs1. dll ?h1 bs1 \<and> set bs \<subseteq> set bs1 \<and> ?p - sizeof_Block \<in> set bs1 \<and>
               (unat (ALIGN sz) + 40 < 2 ^ 64 \<longrightarrow>
                  list_bytes ?h1 bs1 \<le> 2 * list_bytes h bs + unat (ALIGN sz) + 32)"
      using bs1(1,2) c by (intro exI [of _ bs1]) auto
    with res p show ?thesis
      by blast
  qed
qed

section \<open>Runs of free neighbours\<close>

lemmas coal_defs = coal_h1_def coal_h2_def coal_h3_def coal_h4_def coal_h5_def coal_h6_def
  coal_h7_def
lemmas merge_defs = merge_h1_def merge_h2_def merge_h3_def merge_h4_def merge_h5_def
  merge_h6_def merge_h7_def

lemma adjacent_free_append:
  "adjacent_free fr (xs @ ys) \<longleftrightarrow>
     adjacent_free fr xs \<or> adjacent_free fr ys \<or>
     (xs \<noteq> [] \<and> ys \<noteq> [] \<and> fr (last xs) = 1 \<and> fr (hd ys) = 1)"
proof (induction fr xs rule: adjacent_free.induct)
  case (1 fr)
  then show ?case by simp
next
  case (2 fr x)
  then show ?case by (cases ys) auto
next
  case (3 fr x y zs)
  then show ?case by auto
qed

lemma adjacent_free_eq_on:
  "(\<And>x. x \<in> set xs \<Longrightarrow> fr' x = fr x) \<Longrightarrow> adjacent_free fr' xs = adjacent_free fr xs"
  by (induction fr xs rule: adjacent_free.induct) auto

section \<open>Freeing a block of the list\<close>

lemmas reuse_defs = reuse_h1_def reuse_h2_def reuse_h3_def reuse_h4_def reuse_h5_def
lemmas abc_defs = abc_h1_def abc_h2_def abc_h3_def abc_h4_def

lemma run_decomp:
  assumes "b \<in> set bs"
  shows "\<exists>pre Lf R post. bs = pre @ Lf @ b # R @ post \<and> (\<forall>x\<in>set Lf \<union> set R. P x) \<and>
           (pre = [] \<or> \<not> P (last pre)) \<and> (post = [] \<or> \<not> P (hd post))"
proof -
  from assms obtain us vs where bs: "bs = us @ b # vs"
    by (auto simp: in_set_conv_decomp)
  let ?R = "takeWhile P vs" and ?post = "dropWhile P vs"
  let ?Lf = "rev (takeWhile P (rev us))" and ?pre = "rev (dropWhile P (rev us))"
  have "us = ?pre @ ?Lf"
    by (metis rev_append rev_rev_ident takeWhile_dropWhile_id)
  then have "bs = ?pre @ ?Lf @ b # ?R @ ?post"
    using bs by simp
  moreover have "\<forall>x\<in>set ?Lf \<union> set ?R. P x"
    by (auto dest: set_takeWhileD)
  moreover have "?pre = [] \<or> \<not> P (last ?pre)"
  proof (cases "dropWhile P (rev us) = []")
    case True
    then show ?thesis by simp
  next
    case False
    then have "\<not> P (hd (dropWhile P (rev us)))"
      by (rule hd_dropWhile)
    then show ?thesis
      by (simp add: last_rev)
  qed
  moreover have "?post = [] \<or> \<not> P (hd ?post)"
    using hd_dropWhile [of P vs] by blast
  ultimately show ?thesis
    by blast
qed

lemma unat_sum_list:
  fixes ws :: "size_t list"
  shows "sum_list (map unat ws) < 2 ^ 64 \<Longrightarrow> unat (sum_list ws) = sum_list (map unat ws)"
proof (induction ws)
  case Nil
  then show ?case by simp
next
  case (Cons w ws)
  then have "unat (sum_list ws) = sum_list (map unat ws)"
    by simp
  moreover from Cons.prems have "unat w + unat (sum_list ws) < 2 ^ LENGTH(64)"
    by (simp add: calculation)
  then have "unat (w + sum_list ws) = unat w + unat (sum_list ws)"
    by (rule unat_add_lem [THEN iffD1])
  ultimately show ?case
    by simp
qed

lemma merged_size_ge:
  assumes small: "list_bytes h xs < 2 ^ 64" and b: "b \<in> set xs"
  shows "b_size h b \<le> sum_list (map (b_size h) xs) + sizeof_Block * of_nat (length xs - 1)"
proof -
  let ?ws = "map (\<lambda>x. sizeof_Block + b_size h x) xs"
  have "sum_list (map unat (map (b_size h) xs)) + 32 * length xs = list_bytes h xs"
    by (induction xs) (simp_all add: list_bytes_def sizeof_Block_def)
  then have bound: "sum_list (map unat (map (b_size h) xs)) + 32 * length xs < 2 ^ 64"
    using small by simp
  then have sum: "unat (sum_list (map (b_size h) xs)) = sum_list (map unat (map (b_size h) xs))"
    by (intro unat_sum_list) simp
  have "32 * (length xs - 1) < 2 ^ 64"
    using bound by simp
  then have hdr: "unat (sizeof_Block * of_nat (length xs - 1)) = 32 * (length xs - 1)"
    by (simp add: sizeof_Block_def unat_word_ariths unat_of_nat)
  have "sum_list (map unat (map (b_size h) xs)) + 32 * (length xs - 1) < 2 ^ LENGTH(64)"
    using bound by simp
  then have "unat (sum_list (map (b_size h) xs)) + unat (sizeof_Block * of_nat (length xs - 1))
      < 2 ^ LENGTH(64)"
    by (simp only: sum hdr)
  then have "unat (sum_list (map (b_size h) xs) + sizeof_Block * of_nat (length xs - 1)) =
      sum_list (map unat (map (b_size h) xs)) + 32 * (length xs - 1)"
    by (simp only: unat_add_lem [THEN iffD1] sum hdr)
  moreover have "unat (b_size h b) \<le> sum_list (map unat (map (b_size h) xs))"
    using b by (induction xs) auto
  ultimately show ?thesis
    by (simp add: word_le_nat_alt)
qed


lemma my_free_in_list:
  assumes dll: "dll h bs" and b: "b \<in> set bs" and ptr: "b + sizeof_Block \<noteq> NULL"
  shows "\<exists>h' pre Lf R post.
           bs = pre @ Lf @ b # R @ post \<and> my_free h (b + sizeof_Block) = Some h' \<and>
           dll h' (pre @ hd (Lf @ [b]) # post) \<and> b_free h' (hd (Lf @ [b])) = 1 \<and>
           b_size h' (hd (Lf @ [b])) =
             sum_list (map (b_size h) (Lf @ b # R)) + sizeof_Block * of_nat (length Lf + length R) \<and>
           brk h' = brk h \<and> brk_limit h' = brk_limit h \<and> err h' = err h \<and> bytes h' = bytes h"
proof -
  from run_decomp [OF b, of "\<lambda>x. b_free h x = 1"] obtain pre Lf R post
    where bs: "bs = pre @ Lf @ b # R @ post" and free: "\<forall>x\<in>set Lf \<union> set R. b_free h x = 1"
      and before: "pre = [] \<or> b_free h (last pre) \<noteq> 1"
      and after: "post = [] \<or> b_free h (hd post) \<noteq> 1"
    by blast
  from dll have "dll h (pre @ Lf @ b # R @ post)"
    by (simp add: bs)
  from my_free_effect [OF this free before after ptr] obtain h'
    where h': "my_free h (b + sizeof_Block) = Some h'" "dll h' (pre @ hd (Lf @ [b]) # post)"
      "b_free h' = (b_free h)(b := 1)"
      "b_size h' (hd (Lf @ [b])) =
         sum_list (map (b_size h) (Lf @ b # R)) + sizeof_Block * of_nat (length Lf + length R)"
      "brk h' = brk h" "brk_limit h' = brk_limit h" "err h' = err h" "bytes h' = bytes h"
    by blast
  have "b_free h' (hd (Lf @ [b])) = 1"
    using free by (cases Lf) (auto simp: h'(3))
  with bs h' show ?thesis
    by blast
qed

section \<open>What the operations write to the error stream\<close>

lemma free_fwd_err:
  assumes "free_fwd h fb x = Some r"
  shows "err (fst r) = err h"
  by (rule free_fwd.raw_induct [where P = "\<lambda>h fb x r. err (fst r) = err h", OF _ assms])
    (auto split: if_splits)

lemma free_bck_body_err: "err (free_bck_body h fb cb) = err h"
  by (simp add: free_bck_body_def Let_def)

lemma free_bck_err:
  assumes "free_bck h fb cb = Some h'"
  shows "err h' = err h"
  by (rule free_bck.raw_induct [where P = "\<lambda>h fb cb h'. err h' = err h", OF _ assms])
    (auto simp: free_bck_body_err split: if_splits)

lemma my_free_err:
  assumes "my_free h ptr = Some h'" "ptr \<noteq> NULL"
  shows "err h' = err h"
proof -
  let ?b = "ptr - sizeof_Block"
  let ?h1 = "h\<lparr>b_free := (b_free h)(?b := 1)\<rparr>"
  from assms obtain h2 y where fwd: "free_fwd ?h1 ?b (b_next ?h1 ?b) = Some (h2, y)"
    by (auto simp: my_free_def Let_def split: option.splits)
  let ?h3 = "h2\<lparr>b_next := (b_next h2)(?b := y)\<rparr>"
  let ?h4 = "if y \<noteq> NULL then ?h3\<lparr>b_prev := (b_prev ?h3)(y := ?b)\<rparr> else ?h3"
  from assms fwd have "free_bck ?h4 ?b (b_prev ?h4 ?b) = Some h'"
    by (simp add: my_free_def Let_def)
  then have "err h' = err ?h4"
    by (rule free_bck_err)
  moreover have "err h2 = err ?h1"
    using free_fwd_err [OF fwd] by simp
  ultimately show ?thesis
    by simp
qed

lemma malloc_take_err: "err (fst (malloc_take h c a)) = err h"
  by (simp add: malloc_take_def Let_def)

lemma malloc_grow_err:
  "err (fst (malloc_grow h a)) = err h \<or>
   snd (malloc_grow h a) = NULL \<and> err (fst (malloc_grow h a)) = err h @ [''sbrk error'']"
  by (auto simp: malloc_grow_def sbrk_def Let_def split: if_splits)

lemma my_malloc_err:
  assumes "my_malloc h sz = Some (h1, p)"
  shows "err h1 = err h \<or> p = NULL \<and> err h1 = err h @ [''sbrk error'']"
proof -
  from assms obtain c where
    res: "(if c \<noteq> NULL then malloc_take h c (ALIGN sz) else malloc_grow h (ALIGN sz)) = (h1, p)"
    by (auto simp: my_malloc_def Let_def split: option.splits)
  show ?thesis
  proof (cases "c = NULL")
    case True
    with res have "h1 = fst (malloc_grow h (ALIGN sz))" "p = snd (malloc_grow h (ALIGN sz))"
      by auto
    then show ?thesis
      using malloc_grow_err [of h "ALIGN sz"] by auto
  next
    case False
    with res have "h1 = fst (malloc_take h c (ALIGN sz))"
      by auto
    then show ?thesis
      by (simp add: malloc_take_err)
  qed
qed

lemma realloc_shrink_err: "err (realloc_shrink h c a) = err h"
  by (simp add: realloc_shrink_def Let_def)

section \<open>Further facts about my_malloc\<close>

lemma malloc_grow_new_block:
  assumes "brk h < - sizeof_Block" "unat (brk h) + unat (a + sizeof_Block) \<le> unat (brk_limit h)"
  shows "snd (malloc_grow h a) = brk h + sizeof_Block"
    "b_size (fst (malloc_grow h a)) (brk h) = a"
    "b_free (fst (malloc_grow h a)) (brk h) = 0"
    "brk (fst (malloc_grow h a)) = brk h + (a + sizeof_Block)"
  using assms(2) below_minus_header [OF assms(1)]
  by (auto simp: malloc_grow_def sbrk_def Let_def)

lemma malloc_take_free: "b_free (fst (malloc_take h c a)) = (b_free h)(c := 0)"
  by (simp add: malloc_take_def Let_def)

lemma fits_zero: "fits h 0 = (\<lambda>b. b_free h b = 1)"
  by (simp add: fits_def fun_eq_iff)

lemma my_malloc_usable:
  "my_malloc h sz = Some (h1, p) \<Longrightarrow> p \<noteq> NULL \<Longrightarrow> unat sz \<le> 2 ^ 64 - 8 \<Longrightarrow>
   sz \<le> b_size h1 (p - sizeof_Block)"
  using ALIGN_ge [of sz] my_malloc_capacity [of h sz h1 p] by simp

section \<open>Multiples of 8\<close>

text \<open>
  Every size the operations write is a multiple of 8 when the sizes were before, and
  the pointer \<open>my_malloc\<close> returns is a multiple of 8 when the headers of the list and
  the break are.
\<close>

lemma ALIGN_dvd8: "8 dvd ALIGN sz"
proof -
  have "ALIGN sz = drop_bit 3 (sz + 7) * 8"
    by (simp add: ALIGN_def ALIGNMENT_def and_minus_8 push_bit_eq_mult)
  then show ?thesis
    by simp
qed

lemma header_dvd8: "8 dvd sizeof_Block"
proof -
  have "sizeof_Block = 8 * 4"
    by (simp add: sizeof_Block_def)
  then show ?thesis
    by (rule dvdI)
qed

lemma malloc_take_aligned:
  assumes "sizes_aligned h" "8 dvd a"
  shows "sizes_aligned (fst (malloc_take h c a))"
  using assms header_dvd8 by (auto simp: sizes_aligned_def malloc_take_def Let_def)

lemma malloc_grow_aligned:
  assumes "sizes_aligned h" "8 dvd a"
  shows "sizes_aligned (fst (malloc_grow h a))"
  using assms by (auto simp: sizes_aligned_def malloc_grow_def sbrk_def Let_def)

lemma my_malloc_aligned:
  assumes "sizes_aligned h" "my_malloc h sz = Some (h1, p)"
  shows "sizes_aligned h1"
proof -
  from assms(2) obtain c where
    "(if c \<noteq> NULL then malloc_take h c (ALIGN sz) else malloc_grow h (ALIGN sz)) = (h1, p)"
    by (auto simp: my_malloc_def Let_def split: option.splits)
  then have "h1 = fst (malloc_take h c (ALIGN sz)) \<or> h1 = fst (malloc_grow h (ALIGN sz))"
    by (auto split: if_splits)
  then show ?thesis
    using malloc_take_aligned [OF assms(1) ALIGN_dvd8] malloc_grow_aligned [OF assms(1) ALIGN_dvd8]
    by auto
qed

lemma free_fwd_aligned:
  assumes "free_fwd h fb x = Some r"
  shows "sizes_aligned h \<longrightarrow> sizes_aligned (fst r)"
proof (rule free_fwd.raw_induct [where P = "\<lambda>h fb x r. sizes_aligned h \<longrightarrow> sizes_aligned (fst r)",
      OF _ assms])
  fix free_fwd' h fb x r
  assume IH: "\<And>h fb x r. free_fwd' h fb x = Some r \<Longrightarrow> sizes_aligned h \<longrightarrow> sizes_aligned (fst r)"
    and step: "(if x \<noteq> NULL \<and> b_free h x = 1
         then free_fwd'
           (h\<lparr>b_size := (b_size h)(fb := b_size h fb + (sizeof_Block + b_size h x))\<rparr>) fb (b_next h x)
         else Some (h, x)) = Some r"
  show "sizes_aligned h \<longrightarrow> sizes_aligned (fst r)"
  proof
    assume al: "sizes_aligned h"
    then have "sizes_aligned
        (h\<lparr>b_size := (b_size h)(fb := b_size h fb + (sizeof_Block + b_size h x))\<rparr>)"
      using header_dvd8 by (simp add: sizes_aligned_def)
    with IH step al show "sizes_aligned (fst r)"
      by (auto split: if_splits)
  qed
qed

lemma free_bck_body_aligned: "sizes_aligned h \<Longrightarrow> sizes_aligned (free_bck_body h fb cb)"
  using header_dvd8 by (simp add: sizes_aligned_def free_bck_body_def Let_def)

lemma free_bck_aligned:
  assumes "free_bck h fb cb = Some h'"
  shows "sizes_aligned h \<longrightarrow> sizes_aligned h'"
  by (rule free_bck.raw_induct [where P = "\<lambda>h fb cb h'. sizes_aligned h \<longrightarrow> sizes_aligned h'",
        OF _ assms])
    (auto simp: free_bck_body_aligned split: if_splits)

lemma my_free_aligned:
  assumes "sizes_aligned h" "my_free h ptr = Some h'"
  shows "sizes_aligned h'"
proof (cases "ptr = NULL")
  case True
  with assms show ?thesis
    by (auto simp: my_free_def sizes_aligned_def)
next
  case False
  let ?b = "ptr - sizeof_Block"
  let ?h1 = "h\<lparr>b_free := (b_free h)(?b := 1)\<rparr>"
  from assms(2) False obtain h2 y where fwd: "free_fwd ?h1 ?b (b_next ?h1 ?b) = Some (h2, y)"
    by (auto simp: my_free_def Let_def split: option.splits)
  let ?h3 = "h2\<lparr>b_next := (b_next h2)(?b := y)\<rparr>"
  let ?h4 = "if y \<noteq> NULL then ?h3\<lparr>b_prev := (b_prev ?h3)(y := ?b)\<rparr> else ?h3"
  from assms(2) False fwd have bck: "free_bck ?h4 ?b (b_prev ?h4 ?b) = Some h'"
    by (simp add: my_free_def Let_def)
  have "sizes_aligned ?h1"
    using assms(1) by (simp add: sizes_aligned_def)
  with free_fwd_aligned [OF fwd] have "sizes_aligned h2"
    by simp
  then have "sizes_aligned ?h4"
    by (simp add: sizes_aligned_def)
  with free_bck_aligned [OF bck] show ?thesis
    by simp
qed

lemma realloc_shrink_aligned:
  assumes "sizes_aligned h" "8 dvd a"
  shows "sizes_aligned (realloc_shrink h c a)"
  using assms header_dvd8 by (auto simp: sizes_aligned_def realloc_shrink_def Let_def)

lemma my_calloc_aligned:
  assumes "sizes_aligned h" "my_calloc h val sz = Some (h', p)"
  shows "sizes_aligned h'"
proof -
  have "h' = h \<or> (\<exists>h1 q. my_malloc h (sz * val) = Some (h1, q) \<and> b_size h' = b_size h1)"
    using assms(2) by (auto simp: my_calloc_def Let_def split: if_splits option.splits)
  then show ?thesis
    using assms(1) my_malloc_aligned [OF assms(1)] by (auto simp: sizes_aligned_def)
qed

lemma my_realloc_aligned:
  assumes "sizes_aligned h" "my_realloc h ptr sz = Some (h', r)"
  shows "sizes_aligned h'"
proof -
  let ?c = "ptr - sizeof_Block" and ?a = "ALIGN sz"
  consider "ptr = NULL" | "ptr \<noteq> NULL" "sz = 0" | "ptr \<noteq> NULL" "sz \<noteq> 0" "?a \<le> b_size h ?c"
    | "ptr \<noteq> NULL" "sz \<noteq> 0" "b_size h ?c < ?a"
    by fastforce
  then show ?thesis
  proof cases
    case 1
    with assms show ?thesis
      by (auto simp: my_realloc_def Let_def dest: my_malloc_aligned)
  next
    case 2
    with assms show ?thesis
      by (auto simp: my_realloc_def Let_def split: option.splits dest: my_free_aligned)
  next
    case 3
    with assms(2) have "h' = realloc_shrink h ?c ?a"
      by (auto simp: my_realloc_def Let_def)
    then show ?thesis
      using realloc_shrink_aligned [OF assms(1) ALIGN_dvd8] by simp
  next
    case 4
    then have nle: "\<not> ?a \<le> b_size h ?c"
      by simp
    with 4 assms(2) obtain h1 p where m: "my_malloc h ?a = Some (h1, p)"
      by (auto simp: my_realloc_def Let_def split: option.splits)
    from my_malloc_aligned [OF assms(1) m] have al1: "sizes_aligned h1" .
    show ?thesis
    proof (cases "p = NULL")
      case True
      with 4 nle m assms(2) have "h' = h1\<lparr>err := err h1 @ [''realoc error'']\<rparr>"
        by (auto simp: my_realloc_def Let_def)
      with al1 show ?thesis
        by (simp add: sizes_aligned_def)
    next
      case False
      let ?h2 = "h1\<lparr>bytes := memcpy (bytes h1) p ptr (b_size h1 ?c)\<rparr>"
      from False 4 nle m assms(2) have "my_free ?h2 ptr = Some h'"
        by (auto simp: my_realloc_def Let_def split: option.splits)
      moreover have "sizes_aligned ?h2"
        using al1 by (simp add: sizes_aligned_def)
      ultimately show ?thesis
        by (rule my_free_aligned [rotated])
    qed
  qed
qed

lemma my_malloc_ptr_aligned:
  assumes nxt: "seg (b_next h) (head h) bs NULL" and blocks: "\<forall>b\<in>set bs. 8 dvd b"
    and brk: "8 dvd brk h" and res: "my_malloc h sz = Some (h1, p)" and p: "p \<noteq> NULL"
  shows "8 dvd p"
proof (cases "find (fits h (ALIGN sz)) bs")
  case None
  with res have "malloc_grow h (ALIGN sz) = (h1, p)"
    by (simp add: my_malloc_search [OF nxt])
  with p have "p = brk h + sizeof_Block"
    by (auto simp: malloc_grow_def sbrk_def Let_def split: if_splits)
  with brk header_dvd8 show ?thesis
    by simp
next
  case (Some c)
  with res have "p = c + sizeof_Block"
    by (simp add: my_malloc_search [OF nxt] prod_eq_iff malloc_take_ptr)
  moreover have "8 dvd c"
    using find_fits [OF Some] blocks by simp
  ultimately show ?thesis
    using header_dvd8 by simp
qed

section \<open>The global last after my_free\<close>

text \<open>
  \<open>my_free\<close> never assigns \<open>last\<close>. When the final block of the list is absorbed
  by a free predecessor, \<open>last\<close> keeps pointing at the absorbed header, and the next
  block obtained from the operating system is linked behind that header instead of the
  list: it cannot be reached from \<open>head\<close>, and after it is freed the next request of
  the same size moves the break again. This is why the statements about the list below
  ask for \<open>arena_ok\<close>.
\<close>

lemmas stale_defs = stale_h1_def stale_h2_def stale_h3_def stale_h4_def stale_h5_def
  stale_h6_def stale_h7_def stale_h8_def

lemma my_free_leaves_last_stale:
  "my_malloc empty_heap 8 = Some (stale_h1, 0x1020) \<and>
   my_malloc stale_h1 8 = Some (stale_h2, 0x1048) \<and>
   my_free stale_h2 0x1020 = Some stale_h3 \<and>
   my_free stale_h3 0x1048 = Some stale_h4 \<and>
   dll stale_h4 [0x1000] \<and> b_size stale_h4 0x1000 = 48 \<and> last_blk stale_h4 = 0x1028 \<and>
   my_malloc stale_h4 48 = Some (stale_h5, 0x1020) \<and>
   my_malloc stale_h5 16 = Some (stale_h6, 0x1070) \<and>
   dll stale_h6 [0x1000] \<and> b_prev stale_h6 0x1050 = 0x1028 \<and>
   my_free stale_h6 0x1070 = Some stale_h7 \<and> brk stale_h7 = 0x1080 \<and>
   my_malloc stale_h7 16 = Some (stale_h8, 0x10A0) \<and> brk stale_h8 = 0x10B0"
  by (simp add: stale_defs empty_heap_def run_simps)

section \<open>The loop of my_malloc_stats\<close>

text \<open>
  On a list the loop returns, and the used-byte total it reports is the size of the
  last used block of the list (0 when there is none).
\<close>

lemma stats_loop_seg:
  "seg (b_next h) x bs NULL \<Longrightarrow> stats_loop h x s = Some (foldl (\<lambda>s b. stats_body h b s) s bs)"
proof (induction bs arbitrary: x s)
  case Nil
  then show ?case
    by (subst stats_loop.simps) simp
next
  case (Cons b bs)
  then have "x = b" "b \<noteq> NULL" "seg (b_next h) (b_next h b) bs NULL"
    by simp_all
  then show ?case
    using Cons.IH [of "b_next h b" "stats_body h b s"]
    by (subst stats_loop.simps) simp
qed

lemma used_bytes_foldl:
  "used_bytes (foldl (\<lambda>s b. stats_body h b s) s bs) =
     (case find (\<lambda>b. b_free h b = 0) (rev bs) of None \<Rightarrow> used_bytes s | Some b \<Rightarrow> b_size h b)"
proof (induction bs arbitrary: s rule: rev_induct)
  case Nil
  then show ?case by simp
next
  case (snoc b bs)
  then show ?case
    by (simp add: stats_body_def Let_def)
qed

lemma my_malloc_stats_used_bytes:
  assumes "dll h bs"
  shows "map_option (used_bytes \<circ> fst) (my_malloc_stats h) =
     Some (case find (\<lambda>b. b_free h b = 0) (rev bs) of None \<Rightarrow> 0 | Some b \<Rightarrow> b_size h b)"
proof -
  from assms have "seg (b_next h) (head h) bs NULL"
    by (simp add: dll_def)
  then show ?thesis
    by (simp add: my_malloc_stats_def stats_loop_seg used_bytes_foldl split: option.splits)
qed

section \<open>Claims\<close>

text \<open>
  C1. Splitting in \<open>my_malloc\<close>. The claim: when the block found by the first-fit
  search has room for the aligned request, a header and 8 more bytes, the remainder is
  spliced in after it as a free block and the size of the block handed out is shrunk to
  the aligned request. The code splices the remainder in and sets its size, but never
  writes the remainder's \<open>free\<close> field and never changes the size of the block handed
  out (the split in \<open>my_realloc\<close> does both). Run: allocate 64 bytes, free them,
  allocate 8 bytes. The block at \<open>0x1000\<close> keeps size 64 instead of 8, and the
  remainder at \<open>0x1028\<close> has \<open>free = 0\<close>, the value its memory held.
\<close>

theorem my_malloc_split_keeps_size:
  "my_malloc empty_heap 64 = Some (split_h1, 0x1020) \<and>
   my_free split_h1 0x1020 = Some split_h2 \<and>
   b_free split_h2 0x1000 = 1 \<and> b_size split_h2 0x1000 = 64 \<and>
   ALIGN 8 + sizeof_Block + ALIGNMENT \<le> b_size split_h2 0x1000 \<and>
   my_malloc split_h2 8 = Some (split_h3, 0x1020) \<and>
   dll split_h3 [0x1000, 0x1028] \<and>
   b_size split_h3 0x1028 = 64 - ALIGN 8 - sizeof_Block \<and>
   b_size split_h3 0x1000 = 64 \<and> b_size split_h3 0x1000 \<noteq> ALIGN 8 \<and>
   b_free split_h3 0x1028 = 0 \<and> b_free split_h3 0x1028 \<noteq> 1"
  by (simp add: split_h3_def split_h2_def split_h1_def empty_heap_def run_simps)

text \<open>
  C2. Coalescing in \<open>my_free\<close>. The claim as stated (after \<open>my_free\<close> returns no
  two neighbours of the list are both free) fails: \<open>my_free\<close> merges only around the
  block it frees, and the shrinking branch of \<open>my_realloc\<close> puts a free remainder in
  front of a free block without merging them. In the run below the blocks at \<open>0x1028\<close>
  and \<open>0x1060\<close> are neighbours in the list and in memory, both free, before and after
  the last \<open>my_free\<close>.
\<close>

theorem my_free_leaves_adjacent_free:
  "my_malloc empty_heap 64 = Some (coal_h1, 0x1020) \<and>
   my_malloc coal_h1 8 = Some (coal_h2, 0x1080) \<and>
   my_malloc coal_h2 8 = Some (coal_h3, 0x10A8) \<and>
   my_malloc coal_h3 8 = Some (coal_h4, 0x10D0) \<and>
   my_free coal_h4 0x1080 = Some coal_h5 \<and>
   my_realloc coal_h5 0x1020 8 = Some (coal_h6, 0x1020) \<and>
   dll coal_h6 [0x1000, 0x1028, 0x1060, 0x1088, 0x10B0] \<and>
   my_free coal_h6 0x10D0 = Some coal_h7 \<and>
   dll coal_h7 [0x1000, 0x1028, 0x1060, 0x1088, 0x10B0] \<and>
   b_free coal_h7 0x1028 = 1 \<and> b_free coal_h7 0x1060 = 1 \<and>
   0x1028 + sizeof_Block + b_size coal_h7 0x1028 = 0x1060 \<and>
   adjacent_free (b_free coal_h7) [0x1000, 0x1028, 0x1060, 0x1088, 0x10B0]"
  by (simp add: coal_defs empty_heap_def run_simps)

text \<open>
  C2, amended. Let the list be \<open>pre @ Lf @ b # R @ post\<close>, doubly linked, where
  \<open>Lf\<close> and \<open>R\<close> are the maximal runs of free blocks just before and just after
  \<open>b\<close>. Then \<open>my_free\<close> of the payload pointer of \<open>b\<close> returns; the list becomes
  \<open>pre\<close>, the one block \<open>m\<close> (the first of \<open>Lf @ [b]\<close>, that is \<open>b\<close> itself
  or the predecessor that absorbed it) and \<open>post\<close>; \<open>m\<close> is free and its size is
  the sum of the sizes of the whole run plus one header for each absorbed block; the
  neighbours of \<open>m\<close> are not free; the blocks of \<open>pre\<close> and \<open>post\<close> keep state
  and size; and two neighbours of the new list are both free only if two neighbours of
  \<open>pre\<close> or of \<open>post\<close> already were.
\<close>

theorem my_free_coalesces:
  assumes "dll h (pre @ Lf @ b # R @ post)"
    and "\<forall>x\<in>set Lf \<union> set R. b_free h x = 1"
    and "pre = [] \<or> b_free h (last pre) \<noteq> 1"
    and "post = [] \<or> b_free h (hd post) \<noteq> 1"
    and "b + sizeof_Block \<noteq> NULL"
  shows "\<exists>h'. my_free h (b + sizeof_Block) = Some h' \<and>
           dll h' (pre @ hd (Lf @ [b]) # post) \<and>
           b_free h' (hd (Lf @ [b])) = 1 \<and>
           b_size h' (hd (Lf @ [b])) =
             sum_list (map (b_size h) (Lf @ b # R)) + sizeof_Block * of_nat (length Lf + length R) \<and>
           (pre = [] \<or> b_free h' (last pre) \<noteq> 1) \<and>
           (post = [] \<or> b_free h' (hd post) \<noteq> 1) \<and>
           (\<forall>x\<in>set pre \<union> set post. b_free h' x = b_free h x \<and> b_size h' x = b_size h x) \<and>
           (adjacent_free (b_free h') (pre @ hd (Lf @ [b]) # post) \<longleftrightarrow>
              adjacent_free (b_free h) pre \<or> adjacent_free (b_free h) post)"
proof -
  let ?m = "hd (Lf @ [b])"
  from my_free_effect [OF assms] obtain h' where h': "my_free h (b + sizeof_Block) = Some h'"
    "dll h' (pre @ ?m # post)" "b_free h' = (b_free h)(b := 1)"
    "b_size h' ?m =
       sum_list (map (b_size h) (Lf @ b # R)) + sizeof_Block * of_nat (length Lf + length R)"
    "\<forall>x. x \<notin> set (Lf @ [b]) \<longrightarrow> b_size h' x = b_size h x"
    by blast
  have "seg (b_next h) (head h) (pre @ Lf @ b # R @ post) NULL"
    using assms(1) by (simp add: dll_def)
  then have "distinct (pre @ Lf @ b # R @ post)"
    by (rule seg_distinct)
  then have notin: "b \<notin> set pre" "b \<notin> set post" "\<forall>x\<in>set pre \<union> set post. x \<notin> set (Lf @ [b])"
    by auto
  have m: "b_free h' ?m = 1"
    using assms(2) by (cases Lf) (auto simp: h'(3))
  have same: "\<forall>x\<in>set pre \<union> set post. b_free h' x = b_free h x \<and> b_size h' x = b_size h x"
    using notin h'(5) by (auto simp: h'(3))
  have before: "pre = [] \<or> b_free h' (last pre) \<noteq> 1"
    using assms(3) same by (cases pre rule: rev_cases) auto
  have after: "post = [] \<or> b_free h' (hd post) \<noteq> 1"
    using assms(4) same by (cases post) auto
  have "adjacent_free (b_free h') pre = adjacent_free (b_free h) pre"
    "adjacent_free (b_free h') post = adjacent_free (b_free h) post"
    using same by (auto intro!: adjacent_free_eq_on)
  moreover have "adjacent_free (b_free h') ([?m] @ post) \<longleftrightarrow> adjacent_free (b_free h') post"
    using after unfolding adjacent_free_append [of _ "[?m]"] by auto
  then have "adjacent_free (b_free h') (pre @ [?m] @ post) \<longleftrightarrow>
      adjacent_free (b_free h') pre \<or> adjacent_free (b_free h') post"
    using before unfolding adjacent_free_append [of _ pre] by auto
  ultimately have "adjacent_free (b_free h') (pre @ ?m # post) \<longleftrightarrow>
      adjacent_free (b_free h) pre \<or> adjacent_free (b_free h) post"
    by simp
  with h'(1,2,4) m before after same show ?thesis
    by blast
qed

theorem my_free_coalesces_witness:
  "dll merge_h7 [0x1000, 0x1028, 0x1050, 0x1078, 0x10A0] \<and>
   b_free merge_h7 0x1000 = 0 \<and> b_free merge_h7 0x1028 = 1 \<and> b_free merge_h7 0x1050 = 0 \<and>
   b_free merge_h7 0x1078 = 1 \<and> b_free merge_h7 0x10A0 = 0 \<and>
   (\<exists>h'. my_free merge_h7 0x1070 = Some h' \<and> dll h' [0x1000, 0x1028, 0x10A0] \<and>
      b_free h' 0x1028 = 1 \<and> b_size h' 0x1028 = 88 \<and>
      b_free h' 0x1000 = 0 \<and> b_free h' 0x10A0 = 0 \<and>
      \<not> adjacent_free (b_free h') [0x1000, 0x1028, 0x10A0])"
proof -
  have hyps: "dll merge_h7 ([0x1000] @ [0x1028] @ 0x1050 # [0x1078] @ [0x10A0])"
    "\<forall>x\<in>set [0x1028] \<union> set [0x1078]. b_free merge_h7 x = 1"
    "[0x1000 :: addr] = [] \<or> b_free merge_h7 (last [0x1000]) \<noteq> 1"
    "[0x10A0 :: addr] = [] \<or> b_free merge_h7 (hd [0x10A0]) \<noteq> 1"
    "(0x1050 :: addr) + sizeof_Block \<noteq> NULL"
    by (simp_all add: merge_defs empty_heap_def run_simps)
  have vals: "b_free merge_h7 0x1000 = 0" "b_free merge_h7 0x1050 = 0" "b_free merge_h7 0x10A0 = 0"
    "b_size merge_h7 0x1028 = 8" "b_size merge_h7 0x1050 = 8" "b_size merge_h7 0x1078 = 8"
    by (simp_all add: merge_defs empty_heap_def run_simps)
  from my_free_coalesces [OF hyps] obtain h' where
    "my_free merge_h7 (0x1050 + sizeof_Block) = Some h'"
    "dll h' ([0x1000] @ hd ([0x1028] @ [0x1050]) # [0x10A0])"
    "b_free h' (hd ([0x1028] @ [0x1050])) = 1"
    "b_size h' (hd ([0x1028] @ [0x1050])) =
       sum_list (map (b_size merge_h7) ([0x1028] @ 0x1050 # [0x1078])) +
       sizeof_Block * of_nat (length [0x1028 :: addr] + length [0x1078 :: addr])"
    "\<forall>x\<in>set [0x1000] \<union> set [0x10A0].
       b_free h' x = b_free merge_h7 x \<and> b_size h' x = b_size merge_h7 x"
    "adjacent_free (b_free h') ([0x1000] @ hd ([0x1028] @ [0x1050]) # [0x10A0]) \<longleftrightarrow>
       adjacent_free (b_free merge_h7) [0x1000] \<or> adjacent_free (b_free merge_h7) [0x10A0]"
    by blast
  then have "my_free merge_h7 0x1070 = Some h' \<and> dll h' [0x1000, 0x1028, 0x10A0] \<and>
      b_free h' 0x1028 = 1 \<and> b_size h' 0x1028 = 88 \<and>
      b_free h' 0x1000 = 0 \<and> b_free h' 0x10A0 = 0 \<and>
      \<not> adjacent_free (b_free h') [0x1000, 0x1028, 0x10A0]"
    by (simp add: vals sizeof_Block_def)
  with hyps(1) hyps(2) vals show ?thesis
    by auto
qed

text \<open>
  C3. Byte totals of \<open>my_malloc_stats\<close>. The claim: the used and free byte totals
  are sums over all blocks. The loop assigns instead of adding, so each total is the size
  of the last block seen in that state. Run: the first two allocations of \<open>main\<close>
  leave two used blocks of 32 and 16 bytes; the report says 16 used bytes, not 48.
\<close>

theorem my_malloc_stats_last_seen:
  "my_malloc empty_heap 32 = Some (stats_h1, 0x1020) \<and>
   my_calloc stats_h1 4 4 = Some (stats_h2, 0x1060) \<and>
   dll stats_h2 [0x1000, 0x1040] \<and>
   b_free stats_h2 0x1000 = 0 \<and> b_size stats_h2 0x1000 = 32 \<and>
   b_free stats_h2 0x1040 = 0 \<and> b_size stats_h2 0x1040 = 16 \<and>
   map_option (used_bytes \<circ> fst) (my_malloc_stats stats_h2) = Some 16 \<and>
   map_option (used_blocks \<circ> fst) (my_malloc_stats stats_h2) = Some 2 \<and>
   b_size stats_h2 0x1000 + b_size stats_h2 0x1040 = 48"
  by (simp add: stats_h2_def stats_h1_def empty_heap_def run_simps)

text \<open>
  C4. Sizes and alignment. The claim: every size field is a multiple of 8, and a
  successful \<open>my_malloc\<close> of \<open>s\<close> bytes returns an aligned pointer to at least
  \<open>s\<close> usable bytes. The rounding \<open>ALIGN\<close> wraps for requests above
  \<open>2^64 - 8\<close>: a request of \<open>SIZE_MAX\<close> bytes is rounded to 0, the arena grows by
  one header, and the pointer returned has no usable byte behind it (it equals the
  break). For requests up to \<open>2^64 - 8\<close> the block returned is large enough
  (\<open>my_malloc_usable\<close>).
\<close>

theorem my_malloc_align_wraps:
  "ALIGN 0xFFFFFFFFFFFFFFFF = 0 \<and>
   my_malloc empty_heap 0xFFFFFFFFFFFFFFFF = Some (ovf_h1, 0x1020) \<and>
   (0x1020 :: addr) \<noteq> NULL \<and> dll ovf_h1 [0x1000] \<and>
   b_size ovf_h1 (0x1020 - sizeof_Block) = 0 \<and>
   b_size ovf_h1 (0x1020 - sizeof_Block) < 0xFFFFFFFFFFFFFFFF \<and>
   brk ovf_h1 = 0x1020"
  by (simp add: ovf_h1_def empty_heap_def run_simps)

text \<open>
  C5. Reuse after \<open>my_free\<close>. The general half of the claim as stated (the block
  returned by the second allocation has a capacity equal to the aligned request) fails:
  a free block is handed out whole when what is left over would be smaller than a header
  plus 8 bytes. Below, a free block of 24 bytes serves a request of 16 bytes twice, and
  its capacity stays 24.
\<close>

theorem my_malloc_reuse_keeps_capacity:
  "my_malloc empty_heap 24 = Some (reuse_h1, 0x1020) \<and>
   my_free reuse_h1 0x1020 = Some reuse_h2 \<and>
   my_malloc reuse_h2 16 = Some (reuse_h3, 0x1020) \<and>
   my_free reuse_h3 0x1020 = Some reuse_h4 \<and>
   my_malloc reuse_h4 16 = Some (reuse_h5, 0x1020) \<and>
   ALIGN 16 = 16 \<and> b_size reuse_h5 (0x1020 - sizeof_Block) = 24 \<and>
   b_size reuse_h5 (0x1020 - sizeof_Block) \<noteq> ALIGN 16"
  by (simp add: reuse_defs empty_heap_def run_simps)

text \<open>
  C5, amended. On the empty heap, after \<open>A\<close> and \<open>B\<close> of 16 bytes are allocated
  and \<open>A\<close> is freed, allocating \<open>C\<close> of 16 bytes returns the pointer of \<open>A\<close>
  and leaves the break where it was. More generally, on a well-formed arena in which a
  split puts the remainder's header on no existing header and whose byte count is far
  from wrapping: when \<open>my_malloc\<close> returns a pointer other than \<open>NULL\<close>, freeing
  it returns, and allocating the same size again returns the payload pointer of a block
  of the list that was free and large enough, with a capacity of at least the aligned
  request, and the break does not move.
\<close>

theorem my_malloc_reuse:
  "(my_malloc empty_heap 16 = Some (abc_h1, 0x1020) \<and>
    my_malloc abc_h1 16 = Some (abc_h2, 0x1050) \<and>
    my_free abc_h2 0x1020 = Some abc_h3 \<and>
    my_malloc abc_h3 16 = Some (abc_h4, 0x1020) \<and>
    brk abc_h4 = brk abc_h3 \<and> b_size abc_h4 (0x1020 - sizeof_Block) = ALIGN 16) \<and>
   (arena_ok h bs \<and> split_ok h bs (ALIGN sz) \<and>
    2 * list_bytes h bs + unat (ALIGN sz) + 40 < 2 ^ 64 \<and>
    my_malloc h sz = Some (h1, p) \<and> p \<noteq> NULL \<longrightarrow>
    (\<exists>h2 h3 q bs2.
       my_free h1 p = Some h2 \<and> my_malloc h2 sz = Some (h3, q) \<and>
       dll h2 bs2 \<and> q - sizeof_Block \<in> set bs2 \<and> fits h2 (ALIGN sz) (q - sizeof_Block) \<and>
       brk h3 = brk h1 \<and> ALIGN sz \<le> b_size h3 (q - sizeof_Block)))"
proof (intro conjI impI)
  show "my_malloc empty_heap 16 = Some (abc_h1, 0x1020)"
    "my_malloc abc_h1 16 = Some (abc_h2, 0x1050)"
    "my_free abc_h2 0x1020 = Some abc_h3"
    "my_malloc abc_h3 16 = Some (abc_h4, 0x1020)"
    "brk abc_h4 = brk abc_h3" "b_size abc_h4 (0x1020 - sizeof_Block) = ALIGN 16"
    by (simp_all add: abc_defs empty_heap_def run_simps)
next
  let ?a = "ALIGN sz"
  assume "arena_ok h bs \<and> split_ok h bs ?a \<and> 2 * list_bytes h bs + unat ?a + 40 < 2 ^ 64 \<and>
    my_malloc h sz = Some (h1, p) \<and> p \<noteq> NULL"
  then have ok: "arena_ok h bs" and split: "split_ok h bs ?a"
    and small: "2 * list_bytes h bs + unat ?a + 40 < 2 ^ 64"
    and res: "my_malloc h sz = Some (h1, p)" and p: "p \<noteq> NULL"
    by simp_all
  let ?b = "p - sizeof_Block"
  from my_malloc_effect [OF ok split] res p obtain bs1
    where bs1: "dll h1 bs1" "?b \<in> set bs1"
      "unat ?a + 40 < 2 ^ 64 \<longrightarrow> list_bytes h1 bs1 \<le> 2 * list_bytes h bs + unat ?a + 32"
    by auto
  from small bs1(3) have bytes1: "list_bytes h1 bs1 < 2 ^ 64"
    by simp
  have cap1: "?a \<le> b_size h1 ?b"
    using res p by (rule my_malloc_capacity)
  have "?b + sizeof_Block \<noteq> NULL"
    using p by simp
  from my_free_in_list [OF bs1(1,2) this] obtain h2 pre Lf R post
    where run: "bs1 = pre @ Lf @ ?b # R @ post" and free: "my_free h1 p = Some h2"
      and dll2: "dll h2 (pre @ hd (Lf @ [?b]) # post)" and m_free: "b_free h2 (hd (Lf @ [?b])) = 1"
      and m_size: "b_size h2 (hd (Lf @ [?b])) =
        sum_list (map (b_size h1) (Lf @ ?b # R)) + sizeof_Block * of_nat (length Lf + length R)"
      and brk2: "brk h2 = brk h1"
    by auto
  let ?m = "hd (Lf @ [?b])" and ?bs2 = "pre @ hd (Lf @ [?b]) # post"
  have "bs1 = pre @ (Lf @ ?b # R) @ post"
    by (simp add: run)
  then have "list_bytes h1 bs1 =
      list_bytes h1 pre + list_bytes h1 (Lf @ ?b # R) + list_bytes h1 post"
    by (simp only: list_bytes_append)
  then have "list_bytes h1 (Lf @ ?b # R) \<le> list_bytes h1 bs1"
    by simp
  then have "list_bytes h1 (Lf @ ?b # R) < 2 ^ 64"
    using bytes1 by simp
  moreover have "?b \<in> set (Lf @ ?b # R)"
    by simp
  ultimately have "b_size h1 ?b \<le>
      sum_list (map (b_size h1) (Lf @ ?b # R)) + sizeof_Block * of_nat (length (Lf @ ?b # R) - 1)"
    by (rule merged_size_ge)
  then have "b_size h1 ?b \<le> b_size h2 ?m"
    by (simp add: m_size)
  with cap1 m_free have m_fits: "fits h2 ?a ?m"
    by (simp add: fits_def)
  from dll2 have nxt2: "seg (b_next h2) (head h2) ?bs2 NULL"
    by (simp add: dll_def)
  have "find (fits h2 ?a) ?bs2 \<noteq> None"
    using m_fits by (auto simp: find_None_iff)
  then obtain c where c: "find (fits h2 ?a) ?bs2 = Some c"
    by auto
  from find_fits [OF c] have c_in: "c \<in> set ?bs2" and c_fits: "fits h2 ?a c"
    by blast+
  let ?h3 = "fst (malloc_take h2 c ?a)" and ?q = "c + sizeof_Block"
  have "my_malloc h2 sz = Some (?h3, ?q)"
    using c by (simp add: my_malloc_search [OF nxt2] prod_eq_iff malloc_take_ptr)
  moreover have "brk ?h3 = brk h1"
    by (simp add: malloc_take_brk brk2)
  moreover have "?a \<le> b_size ?h3 (?q - sizeof_Block)"
    using c_fits by (simp add: malloc_take_size fits_def)
  ultimately show "\<exists>h2 h3 q bs2.
       my_free h1 p = Some h2 \<and> my_malloc h2 sz = Some (h3, q) \<and>
       dll h2 bs2 \<and> q - sizeof_Block \<in> set bs2 \<and> fits h2 ?a (q - sizeof_Block) \<and>
       brk h3 = brk h1 \<and> ?a \<le> b_size h3 (q - sizeof_Block)"
    using free dll2 c_in c_fits
    by (intro exI [of _ h2] exI [of _ ?h3] exI [of _ ?q] exI [of _ ?bs2]) simp
qed

theorem my_malloc_reuse_witness:
  "arena_ok split_h2 [0x1000] \<and> split_ok split_h2 [0x1000] (ALIGN 8) \<and>
   2 * list_bytes split_h2 [0x1000] + unat (ALIGN 8) + 40 < 2 ^ 64 \<and>
   my_malloc split_h2 8 = Some (split_h3, 0x1020) \<and> (0x1020 :: addr) \<noteq> NULL \<and>
   (\<exists>h2 h3 q bs2.
      my_free split_h3 0x1020 = Some h2 \<and> my_malloc h2 8 = Some (h3, q) \<and>
      dll h2 bs2 \<and> q - sizeof_Block \<in> set bs2 \<and> fits h2 (ALIGN 8) (q - sizeof_Block) \<and>
      brk h3 = brk split_h3 \<and> ALIGN 8 \<le> b_size h3 (q - sizeof_Block))"
proof -
  have hyps: "arena_ok split_h2 [0x1000]" "split_ok split_h2 [0x1000] (ALIGN 8)"
    "2 * list_bytes split_h2 [0x1000] + unat (ALIGN 8) + 40 < 2 ^ 64"
    "my_malloc split_h2 8 = Some (split_h3, 0x1020)" "(0x1020 :: addr) \<noteq> NULL"
    by (simp_all add: arena_ok_def arena_list_def split_ok_def list_bytes_def split_h3_def split_h2_def
        split_h1_def empty_heap_def run_simps)
  with my_malloc_reuse [of split_h2 "[0x1000]" 8 split_h3 "0x1020"] show ?thesis
    by blast
qed

text \<open>
  C6. The growing branch of \<open>my_realloc\<close> when the allocation fails. For the list
  of a well-formed arena, a pointer other than \<open>NULL\<close> and a size other than 0 whose
  aligned value exceeds the size of the block: if \<open>my_malloc\<close> of the aligned size
  returns \<open>NULL\<close>, then \<open>my_realloc\<close> returns \<open>NULL\<close> and the state differs from
  the one before the call in the two lines written to the error stream only, so that the
  list, the state and size of every block and all payload bytes are as before.
\<close>

theorem my_realloc_grow_failure:
  assumes "arena_list h bs"
    and "ptr \<noteq> NULL" "sz \<noteq> 0" "b_size h (ptr - sizeof_Block) < ALIGN sz"
    and "my_malloc h (ALIGN sz) = Some (h1, NULL)"
  shows "my_realloc h ptr sz = Some (h\<lparr>err := err h @ [''sbrk error'', ''realoc error'']\<rparr>, NULL) \<and>
         arena_list (h\<lparr>err := err h @ [''sbrk error'', ''realoc error'']\<rparr>) bs"
proof -
  from assms(1) have nxt: "seg (b_next h) (head h) bs NULL" and below: "\<forall>b\<in>set bs. b < brk h"
    and brk: "brk h < - sizeof_Block"
    by (simp_all add: arena_list_def dll_def)
  from my_malloc_NULL [OF nxt below brk assms(5)] have "h1 = h\<lparr>err := err h @ [''sbrk error'']\<rparr>" .
  then have "my_realloc h ptr sz =
      Some (h\<lparr>err := err h @ [''sbrk error'', ''realoc error'']\<rparr>, NULL)"
    using assms(2-5) by (simp add: my_realloc_def Let_def)
  moreover have "arena_list (h\<lparr>err := err h @ [''sbrk error'', ''realoc error'']\<rparr>) bs"
    using assms(1) by (simp add: arena_list_def dll_def)
  ultimately show ?thesis
    by simp
qed

theorem my_realloc_grow_failure_witness:
  "arena_list tight_h1 [0x1000] \<and> (0x1020 :: addr) \<noteq> NULL \<and> (64 :: size_t) \<noteq> 0 \<and>
   b_size tight_h1 (0x1020 - sizeof_Block) < ALIGN 64 \<and>
   my_malloc tight_h1 (ALIGN 64) = Some (tight_h1\<lparr>err := [''sbrk error'']\<rparr>, NULL) \<and>
   my_realloc tight_h1 0x1020 64 =
     Some (tight_h1\<lparr>err := err tight_h1 @ [''sbrk error'', ''realoc error'']\<rparr>, NULL) \<and>
   b_free tight_h1 0x1000 = 0 \<and> b_size tight_h1 0x1000 = 16"
proof -
  have hyps: "arena_list tight_h1 [0x1000]" "(0x1020 :: addr) \<noteq> NULL" "(64 :: size_t) \<noteq> 0"
    "b_size tight_h1 (0x1020 - sizeof_Block) < ALIGN 64"
    "my_malloc tight_h1 (ALIGN 64) = Some (tight_h1\<lparr>err := [''sbrk error'']\<rparr>, NULL)"
    by (simp_all add: arena_list_def tight_h1_def tight_h0_def empty_heap_def run_simps)
  have vals: "b_free tight_h1 0x1000 = 0" "b_size tight_h1 0x1000 = 16"
    by (simp_all add: tight_h1_def tight_h0_def empty_heap_def run_simps)
  from my_realloc_grow_failure [OF hyps] hyps vals show ?thesis
    by simp
qed

text \<open>
  C7. \<open>my_calloc\<close> returns \<open>NULL\<close> and leaves the whole state as it was (it does
  not reach \<open>my_malloc\<close>) when the count is 0, when the element size is 0, or when
  the product of the two does not fit in 64 bits; the division test of the code detects
  exactly the products that wrap (\<open>mult_overflow_detected\<close>).
\<close>

theorem my_calloc_rejects:
  "val = 0 \<or> sz = 0 \<or> 2 ^ 64 \<le> unat val * unat sz \<Longrightarrow> my_calloc h val sz = Some (h, NULL)"
  using mult_overflow_detected [of val sz] by (auto simp: my_calloc_def Let_def)

theorem my_calloc_rejects_witness:
  "((0 :: size_t) = 0 \<or> (4 :: size_t) = 0 \<or> 2 ^ 64 \<le> unat (0 :: size_t) * unat (4 :: size_t)) \<and>
   my_calloc empty_heap 0 4 = Some (empty_heap, NULL) \<and>
   ((4 :: size_t) = 0 \<or> (0 :: size_t) = 0 \<or> 2 ^ 64 \<le> unat (4 :: size_t) * unat (0 :: size_t)) \<and>
   my_calloc empty_heap 4 0 = Some (empty_heap, NULL) \<and>
   ((0x100000000 :: size_t) = 0 \<or> (0x100000000 :: size_t) = 0 \<or>
      2 ^ 64 \<le> unat (0x100000000 :: size_t) * unat (0x100000000 :: size_t)) \<and>
   my_calloc empty_heap 0x100000000 0x100000000 = Some (empty_heap, NULL)"
  using my_calloc_rejects [of 0 4 empty_heap] my_calloc_rejects [of 4 0 empty_heap]
    my_calloc_rejects [of "0x100000000" "0x100000000" empty_heap]
  by simp



text \<open>
  C9. The last branch of \<open>my_realloc\<close> is dead. For a pointer other than \<open>NULL\<close>
  and a size other than 0, a call that returns does so with the pointer it was given
  (the size fits), with the pointer \<open>my_malloc\<close> returned (any other than
  \<open>NULL\<close>), or with \<open>NULL\<close> after \<open>my_malloc\<close> returned \<open>NULL\<close>; the error
  stream gains nothing, or the lines of the failed allocation, and never
  \<open>invalid ptr\<close>. On a well-formed arena, for a pointer to a block of the list, the
  call does return.
\<close>

theorem my_realloc_never_invalid_ptr:
  assumes "ptr \<noteq> NULL" "sz \<noteq> 0"
  shows "(my_realloc h ptr sz = Some (h', r) \<longrightarrow>
           (r = ptr \<and> ALIGN sz \<le> b_size h (ptr - sizeof_Block) \<and>
              h' = realloc_shrink h (ptr - sizeof_Block) (ALIGN sz) \<or>
            r \<noteq> NULL \<and> b_size h (ptr - sizeof_Block) < ALIGN sz \<and>
              (\<exists>h1. my_malloc h (ALIGN sz) = Some (h1, r)) \<or>
            r = NULL \<and> b_size h (ptr - sizeof_Block) < ALIGN sz \<and>
              (\<exists>h1. my_malloc h (ALIGN sz) = Some (h1, NULL) \<and>
                 h' = h1\<lparr>err := err h1 @ [''realoc error'']\<rparr>)) \<and>
           err h' \<in> {err h, err h @ [''realoc error''], err h @ [''sbrk error'', ''realoc error'']}) \<and>
         (arena_ok h bs \<and> split_ok h bs (ALIGN sz) \<and> ptr - sizeof_Block \<in> set bs \<longrightarrow>
           (\<exists>h' r. my_realloc h ptr sz = Some (h', r)))"
proof (intro conjI impI)
  let ?c = "ptr - sizeof_Block" and ?a = "ALIGN sz"
  assume res: "my_realloc h ptr sz = Some (h', r)"
  show "r = ptr \<and> ?a \<le> b_size h ?c \<and> h' = realloc_shrink h ?c ?a \<or>
        r \<noteq> NULL \<and> b_size h ?c < ?a \<and> (\<exists>h1. my_malloc h ?a = Some (h1, r)) \<or>
        r = NULL \<and> b_size h ?c < ?a \<and>
          (\<exists>h1. my_malloc h ?a = Some (h1, NULL) \<and> h' = h1\<lparr>err := err h1 @ [''realoc error'']\<rparr>)"
  proof (cases "?a \<le> b_size h ?c")
    case True
    with res assms show ?thesis
      by (auto simp: my_realloc_def Let_def)
  next
    case False
    then have lt: "b_size h ?c < ?a"
      by simp
    with res assms False obtain h1 p where m: "my_malloc h ?a = Some (h1, p)"
      by (auto simp: my_realloc_def Let_def split: option.splits)
    show ?thesis
    proof (cases "p = NULL")
      case True
      with res assms False lt m show ?thesis
        by (auto simp: my_realloc_def Let_def)
    next
      case p: False
      with res assms False lt m show ?thesis
        by (auto simp: my_realloc_def Let_def split: option.splits)
    qed
  qed
  show "err h' \<in> {err h, err h @ [''realoc error''], err h @ [''sbrk error'', ''realoc error'']}"
  proof (cases "?a \<le> b_size h ?c")
    case True
    with res assms have "h' = realloc_shrink h ?c ?a"
      by (auto simp: my_realloc_def Let_def)
    then show ?thesis
      by (simp add: realloc_shrink_err)
  next
    case False
    then have lt: "b_size h ?c < ?a"
      by simp
    with res assms False obtain h1 p where m: "my_malloc h ?a = Some (h1, p)"
      by (auto simp: my_realloc_def Let_def split: option.splits)
    show ?thesis
    proof (cases "p = NULL")
      case True
      with res assms False lt m have "h' = h1\<lparr>err := err h1 @ [''realoc error'']\<rparr>"
        by (auto simp: my_realloc_def Let_def)
      then show ?thesis
        using my_malloc_err [OF m] by auto
    next
      case p: False
      with res assms False lt m
      have "my_free (h1\<lparr>bytes := memcpy (bytes h1) p ptr (b_size h1 ?c)\<rparr>) ptr = Some h'"
        by (auto simp: my_realloc_def Let_def split: option.splits)
      from my_free_err [OF this assms(1)] have "err h' = err h1"
        by simp
      then show ?thesis
        using my_malloc_err [OF m] p by auto
    qed
  qed
next
  let ?c = "ptr - sizeof_Block" and ?a = "ALIGN sz"
  assume "arena_ok h bs \<and> split_ok h bs ?a \<and> ?c \<in> set bs"
  then have ok: "arena_ok h bs" and split: "split_ok h bs (ALIGN ?a)" and c: "?c \<in> set bs"
    by (simp_all add: ALIGN_idem)
  show "\<exists>h' r. my_realloc h ptr sz = Some (h', r)"
  proof (cases "?a \<le> b_size h ?c")
    case True
    then show ?thesis
      using assms by (simp add: my_realloc_def Let_def)
  next
    case False
    then have lt: "b_size h ?c < ?a"
      by simp
    from my_malloc_effect [OF ok split] obtain h1 p where m: "my_malloc h ?a = Some (h1, p)"
      and cases: "p = NULL \<or> p \<noteq> NULL \<and> (\<exists>bs1. dll h1 bs1 \<and> set bs \<subseteq> set bs1)"
      by blast
    show ?thesis
    proof (cases "p = NULL")
      case True
      then show ?thesis
        using assms False lt m by (simp add: my_realloc_def Let_def)
    next
      case p: False
      with cases obtain bs1 where bs1: "dll h1 bs1" "set bs \<subseteq> set bs1"
        by blast
      let ?h2 = "h1\<lparr>bytes := memcpy (bytes h1) p ptr (b_size h1 ?c)\<rparr>"
      have "dll ?h2 bs1"
        using bs1(1) by (rule dll_cong) simp_all
      moreover have "?c \<in> set bs1"
        using c bs1(2) by auto
      moreover have "?c + sizeof_Block \<noteq> NULL"
        using assms(1) by simp
      ultimately obtain h' where "my_free ?h2 (?c + sizeof_Block) = Some h'"
        using my_free_in_list [of ?h2 bs1 ?c] by blast
      then show ?thesis
        using assms False lt m p by (simp add: my_realloc_def Let_def)
    qed
  qed
qed

theorem my_realloc_never_invalid_ptr_witness:
  "(0x1020 :: addr) \<noteq> NULL \<and> (64 :: size_t) \<noteq> 0 \<and>
   arena_ok abc_h2 [0x1000, 0x1030] \<and> split_ok abc_h2 [0x1000, 0x1030] (ALIGN 64) \<and>
   (0x1020 :: addr) - sizeof_Block \<in> set [0x1000, 0x1030] \<and>
   (\<exists>h' r. my_realloc abc_h2 0x1020 64 = Some (h', r) \<and> r = 0x1080 \<and>
      b_size abc_h2 (0x1020 - sizeof_Block) < ALIGN 64 \<and>
      (\<exists>h1. my_malloc abc_h2 (ALIGN 64) = Some (h1, r)) \<and> err h' = err abc_h2)"
proof -
  have hyps: "(0x1020 :: addr) \<noteq> NULL" "(64 :: size_t) \<noteq> 0"
    "arena_ok abc_h2 [0x1000, 0x1030]" "split_ok abc_h2 [0x1000, 0x1030] (ALIGN 64)"
    "(0x1020 :: addr) - sizeof_Block \<in> set [0x1000, 0x1030]"
    by (simp_all add: arena_ok_def arena_list_def split_ok_def abc_h1_def abc_h2_def empty_heap_def run_simps)
  have m: "map_option snd (my_malloc abc_h2 (ALIGN 64)) = Some 0x1080" "err abc_h2 = []"
    by (simp_all add: abc_h1_def abc_h2_def empty_heap_def run_simps)
  from my_realloc_never_invalid_ptr [OF hyps(1,2), of abc_h2 _ _ "[0x1000, 0x1030]"] hyps(3-5)
  obtain h' r where res: "my_realloc abc_h2 0x1020 64 = Some (h', r)"
    by blast
  from my_realloc_never_invalid_ptr [OF hyps(1,2), of abc_h2 h' r] res
  have "r = 0x1020 \<and> ALIGN 64 \<le> b_size abc_h2 (0x1020 - sizeof_Block) \<or>
        r \<noteq> NULL \<and> b_size abc_h2 (0x1020 - sizeof_Block) < ALIGN 64 \<and>
          (\<exists>h1. my_malloc abc_h2 (ALIGN 64) = Some (h1, r)) \<or>
        r = NULL \<and> b_size abc_h2 (0x1020 - sizeof_Block) < ALIGN 64 \<and>
          (\<exists>h1. my_malloc abc_h2 (ALIGN 64) = Some (h1, NULL))"
    and e: "err h' \<in> {err abc_h2, err abc_h2 @ [''realoc error''],
              err abc_h2 @ [''sbrk error'', ''realoc error'']}"
    by blast+
  moreover have "\<not> ALIGN 64 \<le> b_size abc_h2 (0x1020 - sizeof_Block)"
    by (simp add: abc_h1_def abc_h2_def empty_heap_def run_simps)
  ultimately have "r = 0x1080 \<and> b_size abc_h2 (0x1020 - sizeof_Block) < ALIGN 64 \<and>
      (\<exists>h1. my_malloc abc_h2 (ALIGN 64) = Some (h1, r))"
    using m(1) by (auto simp: NULL_def)
  moreover have "err h' = err abc_h2"
    using res by (auto simp: abc_h1_def abc_h2_def empty_heap_def run_simps)
  ultimately show ?thesis
    using hyps res by blast
qed

text \<open>
  C10. A request of 0 bytes. The aligned size is 0, so the first-fit test holds for
  every free block whatever its size. For the list of a well-formed arena,
  \<open>my_malloc\<close> of 0 bytes returns the payload pointer of the first free block when
  there is one; when there is none and the operating system grants one header's worth
  of bytes, it makes a block of size 0 at the old break, moves the break by one header,
  and returns the pointer just behind that header; the block is appended to the list
  when \<open>last\<close> is the final block. Neither pointer is \<open>NULL\<close>. \<open>my_calloc\<close>
  with a count or an element size of 0 returns \<open>NULL\<close> and changes nothing.
\<close>

theorem my_malloc_zero_size:
  "ALIGN 0 = 0 \<and> fits h (ALIGN 0) b = (b_free h b = 1) \<and>
   (arena_list h bs \<and> find (\<lambda>b. b_free h b = 1) bs = Some c \<longrightarrow>
      (\<exists>h1. my_malloc h 0 = Some (h1, c + sizeof_Block) \<and> c + sizeof_Block \<noteq> NULL \<and>
         b_free h1 c = 0 \<and> brk h1 = brk h)) \<and>
   (arena_list h bs \<and> find (\<lambda>b. b_free h b = 1) bs = None \<and>
    unat (brk h) + unat sizeof_Block \<le> unat (brk_limit h) \<longrightarrow>
      (\<exists>h1. my_malloc h 0 = Some (h1, brk h + sizeof_Block) \<and> brk h + sizeof_Block \<noteq> NULL \<and>
         b_size h1 (brk h) = 0 \<and> b_free h1 (brk h) = 0 \<and> brk h1 = brk h + sizeof_Block \<and>
         (arena_ok h bs \<longrightarrow> dll h1 (bs @ [brk h])))) \<and>
   my_calloc h 0 sz = Some (h, NULL) \<and> my_calloc h val 0 = Some (h, NULL)"
proof (intro conjI impI)
  show "ALIGN 0 = 0"
    by (rule ALIGN_0)
  show "fits h (ALIGN 0) b = (b_free h b = 1)"
    by (simp add: ALIGN_0 fits_def)
  show "my_calloc h 0 sz = Some (h, NULL)" "my_calloc h val 0 = Some (h, NULL)"
    by (simp_all add: my_calloc_def)
next
  assume "arena_list h bs \<and> find (\<lambda>b. b_free h b = 1) bs = Some c"
  then have ok: "arena_list h bs" and c: "find (fits h (ALIGN 0)) bs = Some c"
    by (simp_all add: ALIGN_0 fits_zero)
  from ok have nxt: "seg (b_next h) (head h) bs NULL"
    and below: "\<forall>b\<in>set bs. b < brk h" and brk: "brk h < - sizeof_Block"
    by (simp_all add: arena_list_def dll_def)
  let ?h1 = "fst (malloc_take h c (ALIGN 0))"
  have "my_malloc h 0 = Some (?h1, c + sizeof_Block)"
    using c by (simp add: my_malloc_search [OF nxt] prod_eq_iff malloc_take_ptr)
  moreover have "c \<in> set bs"
    using find_fits [OF c] by simp
  then have "c < - sizeof_Block"
    using below brk by auto
  then have "c + sizeof_Block \<noteq> NULL"
    by (rule below_minus_header)
  moreover have "b_free ?h1 c = 0" "brk ?h1 = brk h"
    by (simp_all add: malloc_take_free malloc_take_brk)
  ultimately show "\<exists>h1. my_malloc h 0 = Some (h1, c + sizeof_Block) \<and> c + sizeof_Block \<noteq> NULL \<and>
         b_free h1 c = 0 \<and> brk h1 = brk h"
    by blast
next
  assume "arena_list h bs \<and> find (\<lambda>b. b_free h b = 1) bs = None \<and>
    unat (brk h) + unat sizeof_Block \<le> unat (brk_limit h)"
  then have ok: "arena_list h bs" and none: "find (fits h (ALIGN 0)) bs = None"
    and room: "unat (brk h) + unat (ALIGN 0 + sizeof_Block) \<le> unat (brk_limit h)"
    by (simp_all add: ALIGN_0 fits_zero)
  from ok have nxt: "seg (b_next h) (head h) bs NULL" and brk: "brk h < - sizeof_Block"
    by (simp_all add: arena_list_def dll_def)
  let ?h1 = "fst (malloc_grow h (ALIGN 0))" and ?p = "brk h + sizeof_Block"
  note new = malloc_grow_new_block [OF brk room]
  have grow: "malloc_grow h (ALIGN 0) = (?h1, ?p)"
    by (simp add: prod_eq_iff new)
  have p: "?p \<noteq> NULL"
    using brk by (rule below_minus_header)
  have "my_malloc h 0 = Some (?h1, ?p)"
    using none grow by (simp add: my_malloc_search [OF nxt])
  moreover have "arena_ok h bs \<longrightarrow> dll ?h1 (bs @ [brk h])"
    using malloc_grow_dll [OF _ grow p] by simp
  moreover have "b_size ?h1 (brk h) = 0" "b_free ?h1 (brk h) = 0" "brk ?h1 = brk h + sizeof_Block"
    using new by (simp_all add: ALIGN_0)
  ultimately show "\<exists>h1. my_malloc h 0 = Some (h1, ?p) \<and> ?p \<noteq> NULL \<and>
         b_size h1 (brk h) = 0 \<and> b_free h1 (brk h) = 0 \<and> brk h1 = brk h + sizeof_Block \<and>
         (arena_ok h bs \<longrightarrow> dll h1 (bs @ [brk h]))"
    using p by blast
qed

theorem my_malloc_zero_size_witness:
  "arena_list split_h2 [0x1000] \<and> find (\<lambda>b. b_free split_h2 b = 1) [0x1000] = Some 0x1000 \<and>
   (\<exists>h1. my_malloc split_h2 0 = Some (h1, 0x1020) \<and> (0x1020 :: addr) \<noteq> NULL \<and>
      b_free h1 0x1000 = 0 \<and> brk h1 = brk split_h2) \<and>
   arena_ok abc_h2 [0x1000, 0x1030] \<and>
   find (\<lambda>b. b_free abc_h2 b = 1) [0x1000, 0x1030] = None \<and>
   unat (brk abc_h2) + unat sizeof_Block \<le> unat (brk_limit abc_h2) \<and> brk abc_h2 = 0x1060 \<and>
   (\<exists>h1. my_malloc abc_h2 0 = Some (h1, 0x1080) \<and> (0x1080 :: addr) \<noteq> NULL \<and>
      dll h1 [0x1000, 0x1030, 0x1060] \<and> b_size h1 0x1060 = 0 \<and> b_free h1 0x1060 = 0 \<and>
      brk h1 = 0x1080)"
proof -
  have hyps1: "arena_list split_h2 [0x1000]"
    "find (\<lambda>b. b_free split_h2 b = 1) [0x1000] = Some 0x1000"
    by (simp_all add: arena_list_def split_h2_def split_h1_def empty_heap_def run_simps)
  have hyps2: "arena_ok abc_h2 [0x1000, 0x1030]"
    "find (\<lambda>b. b_free abc_h2 b = 1) [0x1000, 0x1030] = None"
    "unat (brk abc_h2) + unat sizeof_Block \<le> unat (brk_limit abc_h2)" "brk abc_h2 = 0x1060"
    by (simp_all add: arena_ok_def arena_list_def abc_h1_def abc_h2_def empty_heap_def run_simps)
  from my_malloc_zero_size [of split_h2 _ "[0x1000]" "0x1000"] hyps1
  have "\<exists>h1. my_malloc split_h2 0 = Some (h1, 0x1000 + sizeof_Block) \<and>
      (0x1000 :: addr) + sizeof_Block \<noteq> NULL \<and> b_free h1 0x1000 = 0 \<and> brk h1 = brk split_h2"
    by blast
  then have one: "\<exists>h1. my_malloc split_h2 0 = Some (h1, 0x1020) \<and> (0x1020 :: addr) \<noteq> NULL \<and>
      b_free h1 0x1000 = 0 \<and> brk h1 = brk split_h2"
    by (simp add: sizeof_Block_def)
  from hyps2(1) have "arena_list abc_h2 [0x1000, 0x1030]"
    by (simp add: arena_ok_def)
  with my_malloc_zero_size [of abc_h2 _ "[0x1000, 0x1030]"] hyps2(1-3)
  have "\<exists>h1. my_malloc abc_h2 0 = Some (h1, brk abc_h2 + sizeof_Block) \<and>
      brk abc_h2 + sizeof_Block \<noteq> NULL \<and> b_size h1 (brk abc_h2) = 0 \<and>
      b_free h1 (brk abc_h2) = 0 \<and> brk h1 = brk abc_h2 + sizeof_Block \<and>
      dll h1 ([0x1000, 0x1030] @ [brk abc_h2])"
    by blast
  then have two: "\<exists>h1. my_malloc abc_h2 0 = Some (h1, 0x1080) \<and> (0x1080 :: addr) \<noteq> NULL \<and>
      dll h1 [0x1000, 0x1030, 0x1060] \<and> b_size h1 0x1060 = 0 \<and> b_free h1 0x1060 = 0 \<and>
      brk h1 = 0x1080"
    by (auto simp: hyps2(4) sizeof_Block_def)
  from hyps1 hyps2 one two show ?thesis
    by blast
qed

end
